theory Spec2Isabelle
  imports Complex_Main
begin

section \<open>Python values: text, exceptions\<close>

text \<open>
  A Python \<open>str\<close> is a sequence of Unicode code points, and \<open>len\<close>, indexing and
  slicing count code points. The constants of \<open>chats.py\<close> are Russian, so a byte string
  would miscount them: text is a list of code points.
\<close>

type_synonym ustr = "nat list"

definition ascii :: "string \<Rightarrow> ustr" where
  "ascii s = map of_char s"

text \<open>
  \<open>str.isdigit\<close> and \<open>str.lower\<close> read the Unicode character database of the Python
  runtime, which is not part of the repository: the two tables are a parameter of every
  function that consults them. \<open>lower\<close> maps whole strings (lower-casing is context
  dependent and may change the length).
\<close>

record unicode_db =
  isdigit :: "nat \<Rightarrow> bool"
  lower :: "ustr \<Rightarrow> ustr"

text \<open>\<open>str.isspace\<close> on one code point: the white space of \<open>str.strip()\<close>.\<close>

definition isspace :: "nat \<Rightarrow> bool" where
  "isspace c \<longleftrightarrow>
     (0x9 \<le> c \<and> c \<le> 0xD) \<or> (0x1C \<le> c \<and> c \<le> 0x20) \<or> c = 0x85 \<or> c = 0xA0 \<or>
     c = 0x1680 \<or> (0x2000 \<le> c \<and> c \<le> 0x200A) \<or> c = 0x2028 \<or> c = 0x2029 \<or>
     c = 0x202F \<or> c = 0x205F \<or> c = 0x3000"

definition strip :: "ustr \<Rightarrow> ustr" where
  "strip s = rev (dropWhile isspace (rev (dropWhile isspace s)))"

datatype py_exception =
    FileNotFoundError
  | PermissionError
  | UnicodeDecodeError
  | IndexError
  | KeyError
  | APIConnectionError
  | AuthenticationError
  | RateLimitError

text \<open>\<open>s.startswith(p)\<close>, \<open>sub in s\<close>, \<open>s.find(sub)\<close> and \<open>s.split(sep, 1)\<close>.\<close>

fun startswith :: "ustr \<Rightarrow> ustr \<Rightarrow> bool" where
  "startswith s [] = True"
| "startswith [] (p # ps) = False"
| "startswith (c # cs) (p # ps) = (c = p \<and> startswith cs ps)"

fun contains :: "ustr \<Rightarrow> ustr \<Rightarrow> bool" where
  "contains sub [] = (sub = [])"
| "contains sub (c # cs) = (startswith (c # cs) sub \<or> contains sub cs)"

fun str_find :: "ustr \<Rightarrow> ustr \<Rightarrow> nat option" where
  "str_find [] sub = (if sub = [] then Some 0 else None)"
| "str_find (c # cs) sub =
     (if startswith (c # cs) sub then Some 0 else map_option Suc (str_find cs sub))"

definition split1 :: "ustr \<Rightarrow> ustr \<Rightarrow> ustr list" where
  "split1 s sep =
     (case str_find s sep of
        None \<Rightarrow> [s]
      | Some i \<Rightarrow> [take i s, drop (i + length sep) s])"

definition getitem :: "'a list \<Rightarrow> nat \<Rightarrow> py_exception + 'a" where
  "getitem xs i = (if i < length xs then Inr (xs ! i) else Inl IndexError)"

section \<open>Constants of \<open>chats.py\<close>\<close>

text \<open>
  The system instruction, in Russian: "You are the SKK assistant. Answer briefly. If there
  is no information, say so."
\<close>

definition SYSTEM_PROMPT :: ustr where
  "SYSTEM_PROMPT =
     [0x422, 0x44B, 0x20, 0x2014, 0x20, 0x430, 0x441, 0x441, 0x438, 0x441, 0x442, 0x435,
      0x43D, 0x442, 0x20, 0x421, 0x41A, 0x41A, 0x2E, 0x20, 0x41E, 0x442, 0x432, 0x435,
      0x447, 0x430, 0x439, 0x20, 0x43A, 0x440, 0x430, 0x442, 0x43A, 0x43E, 0x2E, 0x20,
      0x415, 0x441, 0x43B, 0x438, 0x20, 0x438, 0x43D, 0x444, 0x43E, 0x440, 0x43C, 0x430,
      0x446, 0x438, 0x438, 0x20, 0x43D, 0x435, 0x442, 0x2C, 0x20, 0x441, 0x43A, 0x430,
      0x436, 0x438, 0x20, 0x43E, 0x431, 0x20, 0x44D, 0x442, 0x43E, 0x43C, 0x2E]"

text \<open>The default refusal, in Russian: "Sorry, I did not find an answer to your question."\<close>

definition DEFAULT_RESPONSE :: ustr where
  "DEFAULT_RESPONSE =
     [0x418, 0x437, 0x432, 0x438, 0x43D, 0x438, 0x442, 0x435, 0x2C, 0x20, 0x44F, 0x20,
      0x43D, 0x435, 0x20, 0x43D, 0x430, 0x448, 0x435, 0x43B, 0x20, 0x43E, 0x442, 0x432,
      0x435, 0x442, 0x430, 0x20, 0x43D, 0x430, 0x20, 0x432, 0x430, 0x448, 0x20, 0x432,
      0x43E, 0x43F, 0x440, 0x43E, 0x441, 0x2E]"

definition SIMILARITY_GOOD :: rat where
  "SIMILARITY_GOOD = 6 / 10"

definition SIMILARITY_PARTIAL :: rat where
  "SIMILARITY_PARTIAL = 4 / 10"

definition CACHE_SIZE :: nat where
  "CACHE_SIZE = 256"

section \<open>Helper functions\<close>

text \<open>
  \<^verbatim>\<open>
  def clean_response(answer: str) -> str:
      if answer and answer[0].isdigit() and '. ' in answer[:5]:
          return answer.split('. ', 1)[1]
      return answer
  \<close>
  The index \<open>[1]\<close> raises \<open>IndexError\<close> on a one-element list.
\<close>

definition clean_response :: "'u unicode_db_scheme \<Rightarrow> ustr \<Rightarrow> py_exception + ustr" where
  "clean_response U answer =
     (if answer \<noteq> [] \<and> isdigit U (answer ! 0) \<and> contains (ascii ''. '') (take 5 answer)
      then getitem (split1 answer (ascii ''. '')) 1
      else Inr answer)"

section \<open>The similarity ratio of \<open>difflib\<close>\<close>

text \<open>
  \<open>difflib.SequenceMatcher(None, a, b).ratio()\<close> of the Python standard library, in the
  configuration \<open>chats.py\<close> uses: no junk predicate (\<open>isjunk=None\<close>, so \<open>bjunk\<close> is empty and
  the two loops of \<open>find_longest_match\<close> that absorb junk never run) and \<open>autojunk=True\<close>.

  \<open>b2j\<close> is the index built by \<open>__chain_b\<close>, read as \<open>b2j.get(elt, [])\<close>: the positions of
  \<open>elt\<close> in \<open>b\<close>, ascending, and nothing for a "popular" element (one that occurs more than
  \<open>n // 100 + 1\<close> times in a sequence of \<open>n \<ge> 200\<close>).
\<close>

definition b2j :: "ustr \<Rightarrow> nat \<Rightarrow> nat list" where
  "b2j b elt =
     (let idxs = filter (\<lambda>j. b ! j = elt) [0..<length b]
      in if length b \<ge> 200 \<and> length idxs > length b div 100 + 1 then [] else idxs)"

text \<open>
  The inner loop of \<open>find_longest_match\<close> over the positions \<open>j\<close> of \<open>a[i]\<close> in \<open>b\<close>
  (\<open>continue\<close> below \<open>blo\<close>, \<open>break\<close> at \<open>bhi\<close>). A dictionary \<open>j2len\<close> is a function that is
  0 at the keys it does not hold (its values are positive), so \<open>j2len.get(j - 1, 0)\<close> is
  \<open>j2len (j - 1)\<close>, except at \<open>j = 0\<close>, where the key \<open>-1\<close> is never held.
\<close>

fun scan_row ::
  "nat \<Rightarrow> nat \<Rightarrow> nat \<Rightarrow> (nat \<Rightarrow> nat) \<Rightarrow> nat list \<Rightarrow>
   (nat \<Rightarrow> nat) \<times> nat \<times> nat \<times> nat \<Rightarrow> (nat \<Rightarrow> nat) \<times> nat \<times> nat \<times> nat" where
  "scan_row i blo bhi j2len [] st = st"
| "scan_row i blo bhi j2len (j # js) (newj2len, besti, bestj, bestsize) =
     (if j < blo then scan_row i blo bhi j2len js (newj2len, besti, bestj, bestsize)
      else if j \<ge> bhi then (newj2len, besti, bestj, bestsize)
      else
        let k = (if j = 0 then 0 else j2len (j - 1)) + 1 in
        if k > bestsize
        then scan_row i blo bhi j2len js (newj2len(j := k), i + 1 - k, j + 1 - k, k)
        else scan_row i blo bhi j2len js (newj2len(j := k), besti, bestj, bestsize))"

text \<open>The outer loop \<open>for i in range(alo, ahi)\<close>.\<close>

fun scan_rows ::
  "ustr \<Rightarrow> ustr \<Rightarrow> nat \<Rightarrow> nat \<Rightarrow> nat list \<Rightarrow>
   (nat \<Rightarrow> nat) \<times> nat \<times> nat \<times> nat \<Rightarrow> nat \<times> nat \<times> nat" where
  "scan_rows a b blo bhi [] (j2len, best) = best"
| "scan_rows a b blo bhi (i # is) (j2len, best) =
     (case scan_row i blo bhi j2len (b2j b (a ! i)) (\<lambda>_. 0, best) of
        (newj2len, best') \<Rightarrow> scan_rows a b blo bhi is (newj2len, best'))"

text \<open>The two \<open>while\<close> loops that extend the best block at each end.\<close>

function extend_back ::
  "ustr \<Rightarrow> ustr \<Rightarrow> nat \<Rightarrow> nat \<Rightarrow> nat \<times> nat \<times> nat \<Rightarrow> nat \<times> nat \<times> nat" where
  "extend_back a b alo blo (besti, bestj, bestsize) =
     (if besti > alo \<and> bestj > blo \<and> a ! (besti - 1) = b ! (bestj - 1)
      then extend_back a b alo blo (besti - 1, bestj - 1, bestsize + 1)
      else (besti, bestj, bestsize))"
  by pat_completeness auto
termination
  by (relation "measure (\<lambda>(a, b, alo, blo, besti, bestj, bestsize). besti)") auto

function extend_forward ::
  "ustr \<Rightarrow> ustr \<Rightarrow> nat \<Rightarrow> nat \<Rightarrow> nat \<times> nat \<times> nat \<Rightarrow> nat \<times> nat \<times> nat" where
  "extend_forward a b ahi bhi (besti, bestj, bestsize) =
     (if besti + bestsize < ahi \<and> bestj + bestsize < bhi \<and>
         a ! (besti + bestsize) = b ! (bestj + bestsize)
      then extend_forward a b ahi bhi (besti, bestj, bestsize + 1)
      else (besti, bestj, bestsize))"
  by pat_completeness auto
termination
  by (relation "measure (\<lambda>(a, b, ahi, bhi, besti, bestj, bestsize). ahi - (besti + bestsize))")
    auto

declare extend_back.simps [simp del] extend_forward.simps [simp del]

definition find_longest_match ::
  "ustr \<Rightarrow> ustr \<Rightarrow> nat \<Rightarrow> nat \<Rightarrow> nat \<Rightarrow> nat \<Rightarrow> nat \<times> nat \<times> nat" where
  "find_longest_match a b alo ahi blo bhi =
     extend_forward a b ahi bhi
       (extend_back a b alo blo
          (scan_rows a b blo bhi [alo..<ahi] (\<lambda>_. 0, alo, blo, 0)))"

text \<open>
  \<open>ratio\<close> sums the sizes of the blocks of \<open>get_matching_blocks\<close>. That method takes a window
  from a queue, records its longest block and queues the windows left and right of it;
  sorting and merging adjacent blocks do not change the sum, so the sum is computed by the
  recursion the queue replaces. It terminates because a block found in a window lies
  inside the window.
\<close>

function matching_size :: "ustr \<Rightarrow> ustr \<Rightarrow> nat \<Rightarrow> nat \<Rightarrow> nat \<Rightarrow> nat \<Rightarrow> nat" where
  "matching_size a b alo ahi blo bhi =
     (case find_longest_match a b alo ahi blo bhi of
        (i, j, k) \<Rightarrow>
          if k \<noteq> 0
          then k + (if alo < i \<and> blo < j then matching_size a b alo i blo j else 0)
                 + (if i + k < ahi \<and> j + k < bhi then matching_size a b (i + k) ahi (j + k) bhi
                    else 0)
          else 0)"
  by pat_completeness auto
termination
proof -
  have row: "(\<forall>j. n' j \<le> i + 1 - alo) \<and> alo \<le> bi' \<and> bi' + bs' \<le> i + 1"
    if "scan_row i blo bhi j2len js (newj2len, besti, bestj, bestsize) = (n', bi', bj', bs')"
      and "alo \<le> i" and "\<forall>j. j2len j \<le> i - alo"
      and "\<forall>j. newj2len j \<le> i + 1 - alo" and "alo \<le> besti" and "besti + bestsize \<le> i + 1"
    for i blo bhi j2len js newj2len besti bestj bestsize n' bi' bj' bs' alo
    using that
  proof (induction js arbitrary: newj2len besti bestj bestsize)
    case Nil
    then show ?case by simp
  next
    case (Cons j js)
    let ?k = "(if j = 0 then 0 else j2len (j - 1)) + 1"
    have k: "?k \<le> i + 1 - alo"
      using Cons.prems(2) Cons.prems(3) [rule_format, of "j - 1"] by auto
    have new: "\<forall>x. (newj2len(j := ?k)) x \<le> i + 1 - alo"
      using k Cons.prems(4) by auto
    consider "j < blo" | "blo \<le> j" "bhi \<le> j" | "blo \<le> j" "j < bhi" "?k > bestsize"
      | "blo \<le> j" "j < bhi" "\<not> ?k > bestsize"
      by linarith
    then show ?case
    proof cases
      case 1
      with Cons show ?thesis by simp
    next
      case 2
      with Cons.prems show ?thesis by simp
    next
      case 3
      then have "scan_row i blo bhi j2len js (newj2len(j := ?k), i + 1 - ?k, j + 1 - ?k, ?k) =
          (n', bi', bj', bs')"
        using Cons.prems(1) by (simp add: Let_def)
      moreover have "alo \<le> i + 1 - ?k" "i + 1 - ?k + ?k \<le> i + 1"
        using k Cons.prems(2) by auto
      ultimately show ?thesis
        using Cons.IH new Cons.prems(2,3) by blast
    next
      case 4
      then have "scan_row i blo bhi j2len js (newj2len(j := ?k), besti, bestj, bestsize) =
          (n', bi', bj', bs')"
        using Cons.prems(1) by (simp add: Let_def)
      then show ?thesis
        using Cons.IH new Cons.prems(2,3,5,6) by blast
    qed
  qed
  have rows: "alo \<le> bi' \<and> bi' + bs' \<le> ahi"
    if "scan_rows a b blo bhi [i..<ahi] (j2len, besti, bestj, bestsize) = (bi', bj', bs')"
      and "alo \<le> i" and "i \<le> ahi" and "\<forall>j. j2len j \<le> i - alo"
      and "alo \<le> besti" and "besti + bestsize \<le> i"
    for a b blo bhi i ahi j2len besti bestj bestsize bi' bj' bs' alo
    using that
  proof (induction "ahi - i" arbitrary: i j2len besti bestj bestsize)
    case 0
    then show ?case by simp
  next
    case (Suc n)
    then have lt: "i < ahi" by simp
    obtain n' ci cj cs where r:
      "scan_row i blo bhi j2len (b2j b (a ! i)) (\<lambda>_. 0, besti, bestj, bestsize) = (n', ci, cj, cs)"
      by (metis prod_cases4)
    have post: "(\<forall>j. n' j \<le> i + 1 - alo) \<and> alo \<le> ci \<and> ci + cs \<le> i + 1"
      by (rule row [OF r]) (use Suc.prems in auto)
    have "scan_rows a b blo bhi [Suc i..<ahi] (n', ci, cj, cs) = (bi', bj', bs')"
      using Suc.prems(1) lt r by (simp add: upt_conv_Cons)
    moreover have "n = ahi - Suc i" using Suc.hyps(2) by simp
    ultimately show ?case
      using Suc.hyps(1) [of "Suc i" n' ci cj cs] post Suc.prems(2) lt by auto
  qed
  have bwd: "alo \<le> bi' \<and> bi' + bs' = besti + bestsize"
    if "extend_back a b alo blo (besti, bestj, bestsize) = (bi', bj', bs')" and "alo \<le> besti"
    for a b alo blo besti bestj bestsize bi' bj' bs'
    using that
  proof (induction a b alo blo "(besti, bestj, bestsize)" arbitrary: besti bestj bestsize
      rule: extend_back.induct)
    case (1 a b alo blo besti bestj bestsize)
    show ?case
    proof (cases "besti > alo \<and> bestj > blo \<and> a ! (besti - 1) = b ! (bestj - 1)")
      case True
      then have "extend_back a b alo blo (besti - 1, bestj - 1, bestsize + 1) = (bi', bj', bs')"
        using "1.prems"(1) by (simp add: extend_back.simps)
      from "1.hyps" [OF True this] True show ?thesis by auto
    next
      case False
      then show ?thesis using "1.prems" by (auto simp: extend_back.simps)
    qed
  qed
  have fwd: "bi' = besti \<and> (bs' = bestsize \<or> bi' + bs' \<le> ahi)"
    if "extend_forward a b ahi bhi (besti, bestj, bestsize) = (bi', bj', bs')"
    for a b ahi bhi besti bestj bestsize bi' bj' bs'
    using that
  proof (induction a b ahi bhi "(besti, bestj, bestsize)" arbitrary: besti bestj bestsize
      rule: extend_forward.induct)
    case (1 a b ahi bhi besti bestj bestsize)
    show ?case
    proof (cases "besti + bestsize < ahi \<and> bestj + bestsize < bhi \<and>
           a ! (besti + bestsize) = b ! (bestj + bestsize)")
      case True
      then have "extend_forward a b ahi bhi (besti, bestj, bestsize + 1) = (bi', bj', bs')"
        using "1.prems"(1) by (simp add: extend_forward.simps)
      from "1.hyps" [OF True this] True show ?thesis by auto
    next
      case False
      then show ?thesis using "1.prems" by (auto simp: extend_forward.simps)
    qed
  qed
  have inside: "alo \<le> i \<and> i + k \<le> ahi"
    if "find_longest_match a b alo ahi blo bhi = (i, j, k)" and "k \<noteq> 0"
    for a b alo ahi blo bhi i j k
  proof -
    obtain si sj ss where s:
      "scan_rows a b blo bhi [alo..<ahi] (\<lambda>_. 0, alo, blo, 0) = (si, sj, ss)"
      by (metis prod_cases3)
    obtain ei ej es where e: "extend_back a b alo blo (si, sj, ss) = (ei, ej, es)"
      by (metis prod_cases3)
    have f: "extend_forward a b ahi bhi (ei, ej, es) = (i, j, k)"
      using that(1) s e by (simp add: find_longest_match_def)
    show ?thesis
    proof (cases "alo \<le> ahi")
      case True
      have "alo \<le> si \<and> si + ss \<le> ahi"
        by (rule rows [OF s]) (use True in auto)
      with bwd [OF e] fwd [OF f] show ?thesis by auto
    next
      case False
      then have "(si, sj, ss) = (alo, blo, 0)" using s by simp
      then have "(ei, ej, es) = (alo, blo, 0)" using e by (simp add: extend_back.simps)
      then have "k = 0" using f False by (simp add: extend_forward.simps)
      with that(2) show ?thesis by simp
    qed
  qed
  show ?thesis
  proof (relation "measure (\<lambda>(a, b, alo, ahi, blo, bhi). ahi - alo)", goal_cases)
    case 1
    show ?case by simp
  next
    case (2 a b alo ahi blo bhi x y i k)
    then have "find_longest_match a b alo ahi blo bhi = (x, i, k)" by simp
    from inside [OF this] 2 show ?case by auto
  next
    case (3 a b alo ahi blo bhi x y i k)
    then have "find_longest_match a b alo ahi blo bhi = (x, i, k)" by simp
    from inside [OF this] 3 show ?case by auto
  qed
qed

declare matching_size.simps [simp del]

text \<open>
  \<open>_calculate_ratio\<close>: \<open>2.0 * matches / length\<close>, and \<open>1.0\<close> when both sequences are empty.
  The float is kept as the exact quotient, and the thresholds \<open>0.95\<close>, \<open>0.6\<close> and \<open>0.4\<close>
  as the fractions they denote. The division is correctly rounded and the sequences are
  far shorter than \<open>2 ^ 25\<close> elements, so a quotient that differs from a threshold, or
  from another quotient, differs from it by more than the rounding error: the source's
  float comparisons decide as the exact ones do.
\<close>

definition ratio :: "ustr \<Rightarrow> ustr \<Rightarrow> rat" where
  "ratio a b =
     (let matches = matching_size a b 0 (length a) 0 (length b);
          length = length a + length b
      in if length \<noteq> 0 then 2 * of_nat matches / of_nat length else 1)"

text \<open>
  For the proof that a sequence compared with itself has ratio 1: \<open>diag b r\<close> is the
  number of consecutive elements of \<open>b\<close> ending at position \<open>r\<close> that \<open>b2j\<close> indexes (that
  are not popular). When \<open>b\<close> is compared with itself, no block found off the diagonal
  beats the diagonal block found before it, so the best block of the scan starts at the
  same position in both sequences, and extending it at both ends covers the whole
  sequence.
\<close>

primrec diag :: "ustr \<Rightarrow> nat \<Rightarrow> nat" where
  "diag b 0 = (if b2j b (b ! 0) = [] then 0 else 1)"
| "diag b (Suc r) = (if b2j b (b ! Suc r) = [] then 0 else diag b r + 1)"

section \<open>The knowledge files\<close>

text \<open>
  What \<open>open(path, 'r', encoding='utf-8')\<close> and reading find at a path: no file
  (\<open>FileNotFoundError\<close>), a file that cannot be opened, such as a directory or one without
  read permission (another \<open>OSError\<close>), a file whose bytes are not UTF-8 (reading raises
  \<open>UnicodeDecodeError\<close>), or a file that decodes to a text.
\<close>

datatype file_node = Missing | NoAccess | Garbled | Text ustr

type_synonym path = ustr

type_synonym filesystem = "path \<Rightarrow> file_node"

definition open_r :: "filesystem \<Rightarrow> path \<Rightarrow> py_exception + file_node" where
  "open_r fs p =
     (case fs p of
        Missing \<Rightarrow> Inl FileNotFoundError
      | NoAccess \<Rightarrow> Inl PermissionError
      | node \<Rightarrow> Inr node)"

text \<open>
  A file opened in text mode translates \<open>\r\n\<close> and \<open>\r\<close> to \<open>\n\<close>, and iterating it yields
  the lines, each with its \<open>\n\<close> (the last line may lack one).
\<close>

fun universal_newlines :: "ustr \<Rightarrow> ustr" where
  "universal_newlines [] = []"
| "universal_newlines [c] = [if c = 0xD then 0xA else c]"
| "universal_newlines (c # d # ds) =
     (if c = 0xD \<and> d = 0xA then 0xA # universal_newlines ds
      else if c = 0xD then 0xA # universal_newlines (d # ds)
      else c # universal_newlines (d # ds))"

fun file_lines :: "ustr \<Rightarrow> ustr list" where
  "file_lines [] = []"
| "file_lines (c # cs) =
     (if c = 0xA then [c] # file_lines cs
      else (case file_lines cs of [] \<Rightarrow> [[c]] | l # ls \<Rightarrow> (c # l) # ls))"

definition read_lines :: "file_node \<Rightarrow> py_exception + ustr list" where
  "read_lines f =
     (case f of
        Text t \<Rightarrow> Inr (file_lines (universal_newlines t))
      | _ \<Rightarrow> Inl UnicodeDecodeError)"

text \<open>\<open>[l.strip() for l in f if l.strip()]\<close>\<close>

definition retained :: "ustr list \<Rightarrow> ustr list" where
  "retained ls = map strip (filter (\<lambda>l. strip l \<noteq> []) ls)"

text \<open>Sequencing of computations that may raise.\<close>

definition and_then :: "'e + 'a \<Rightarrow> ('a \<Rightarrow> 'e + 'b) \<Rightarrow> 'e + 'b" where
  "and_then r f = (case r of Inl e \<Rightarrow> Inl e | Inr x \<Rightarrow> f x)"

fun map_exc :: "('a \<Rightarrow> 'e + 'b) \<Rightarrow> 'a list \<Rightarrow> 'e + 'b list" where
  "map_exc f [] = Inr []"
| "map_exc f (x # xs) = and_then (f x) (\<lambda>y. and_then (map_exc f xs) (\<lambda>ys. Inr (y # ys)))"

section \<open>Process state: the two \<open>lru_cache\<close>s, and what was touched\<close>

text \<open>
  \<open>functools.lru_cache(maxsize=CACHE_SIZE)\<close> keeps the results of the calls that returned,
  most recently used first: a hit moves its entry to the front, a miss calls the function
  and stores the result, dropping the least recently used entry when the cache is full. A
  call that raises stores nothing.
\<close>

definition lru_hit :: "'k \<Rightarrow> 'v \<Rightarrow> ('k \<times> 'v) list \<Rightarrow> ('k \<times> 'v) list" where
  "lru_hit k v cache = (k, v) # filter (\<lambda>e. fst e \<noteq> k) cache"

definition lru_store :: "'k \<Rightarrow> 'v \<Rightarrow> ('k \<times> 'v) list \<Rightarrow> ('k \<times> 'v) list" where
  "lru_store k v cache = take CACHE_SIZE ((k, v) # cache)"

type_synonym qa_pair = "ustr \<times> ustr"

type_synonym message = "ustr \<times> ustr"

text \<open>
  The state holds the two caches, and two logs that the source does not keep: the paths
  handed to \<open>open\<close> and the exchanges sent to the generative API, in order. The logs make
  "without reading the files" and "without calling the API" statable.
\<close>

record state =
  qa_cache :: "((path \<times> path) \<times> qa_pair list) list"
  api_cache :: "(message list \<times> ustr) list"
  opened :: "path list"
  requests :: "message list list"

text \<open>
  The generative API, as the program sees it at one moment: for an exchange, the content of
  the first choice of the completion, or the exception raised on the way to it
  (connection, authentication, a response without choices or content).
\<close>

type_synonym api = "message list \<Rightarrow> py_exception + ustr"

section \<open>The functions of \<open>chats.py\<close>\<close>

text \<open>The greetings \<open>should_process\<close> excludes, in Russian: "thanks", "hi", "hello".\<close>

definition GREETINGS :: "ustr list" where
  "GREETINGS =
     [[0x441, 0x43F, 0x430, 0x441, 0x438, 0x431, 0x43E],
      [0x43F, 0x440, 0x438, 0x432, 0x435, 0x442],
      [0x437, 0x434, 0x440, 0x430, 0x432, 0x441, 0x442, 0x432, 0x443, 0x439, 0x442, 0x435]]"

text \<open>
  \<^verbatim>\<open>
  def should_process(question: str) -> bool:
      question = question.strip().lower()
      return len(question) > 3 and question not in {...}
  \<close>
\<close>

definition should_process :: "'u unicode_db_scheme \<Rightarrow> ustr \<Rightarrow> bool" where
  "should_process U question =
     (let question = lower U (strip question)
      in length question > 3 \<and> question \<notin> set GREETINGS)"

text \<open>
  The body of \<open>load_qa_pairs\<close>: both files are opened before either is read; the questions
  are read before the answers; only \<open>FileNotFoundError\<close> is caught.
\<close>

definition read_qa_pairs ::
  "'u unicode_db_scheme \<Rightarrow> filesystem \<Rightarrow> path \<Rightarrow> path \<Rightarrow> py_exception + qa_pair list" where
  "read_qa_pairs U fs questions_path answers_path =
     and_then (open_r fs questions_path) (\<lambda>f_q.
     and_then (open_r fs answers_path) (\<lambda>f_a.
     and_then (read_lines f_q) (\<lambda>q_lines.
     and_then (read_lines f_a) (\<lambda>a_lines.
     and_then (map_exc (clean_response U) (retained a_lines)) (\<lambda>answers.
     Inr (zip (retained q_lines) answers))))))"

definition load_qa_pairs_wrapped ::
  "'u unicode_db_scheme \<Rightarrow> filesystem \<Rightarrow> path \<Rightarrow> path \<Rightarrow> py_exception + qa_pair list" where
  "load_qa_pairs_wrapped U fs questions_path answers_path =
     (case read_qa_pairs U fs questions_path answers_path of
        Inl e \<Rightarrow> if e = FileNotFoundError then Inr [] else Inl e
      | Inr pairs \<Rightarrow> Inr pairs)"

text \<open>The paths the body hands to \<open>open\<close>: the answers path only once the questions file is open.\<close>

definition paths_opened :: "filesystem \<Rightarrow> path \<Rightarrow> path \<Rightarrow> path list" where
  "paths_opened fs questions_path answers_path =
     (case open_r fs questions_path of
        Inl e \<Rightarrow> [questions_path]
      | Inr f_q \<Rightarrow> [questions_path, answers_path])"

text \<open>\<open>load_qa_pairs\<close> as the program calls it, behind \<open>lru_cache\<close>.\<close>

definition load_qa_pairs ::
  "'u unicode_db_scheme \<Rightarrow> filesystem \<Rightarrow> state \<Rightarrow> path \<Rightarrow> path \<Rightarrow>
   (py_exception + qa_pair list) \<times> state" where
  "load_qa_pairs U fs st questions_path answers_path =
     (case map_of (qa_cache st) (questions_path, answers_path) of
        Some pairs \<Rightarrow>
          (Inr pairs,
           st\<lparr>qa_cache := lru_hit (questions_path, answers_path) pairs (qa_cache st)\<rparr>)
      | None \<Rightarrow>
          (let st1 = st\<lparr>opened := opened st @ paths_opened fs questions_path answers_path\<rparr>
           in case load_qa_pairs_wrapped U fs questions_path answers_path of
                Inl e \<Rightarrow> (Inl e, st1)
              | Inr pairs \<Rightarrow>
                  (Inr pairs,
                   st1\<lparr>qa_cache :=
                     lru_store (questions_path, answers_path) pairs (qa_cache st)\<rparr>)))"

text \<open>
  \<^verbatim>\<open>
  def find_best_match_extended(user_question, qa_pairs):
      if not qa_pairs:
          return "", "", 0.0
      best_match, best_answer, best_score = "", "", 0.0
      for question, answer in qa_pairs:
          current_score = difflib.SequenceMatcher(
              None, user_question.lower().strip(), question.lower().strip()).ratio()
          if current_score > best_score:
              best_score = current_score
              best_match = question
              best_answer = answer
              if best_score >= 0.95:
                  break
      return best_match, best_answer, best_score
  \<close>
\<close>

definition current_score :: "'u unicode_db_scheme \<Rightarrow> ustr \<Rightarrow> ustr \<Rightarrow> rat" where
  "current_score U user_question question =
     ratio (strip (lower U user_question)) (strip (lower U question))"

fun scan_pairs ::
  "'u unicode_db_scheme \<Rightarrow> ustr \<Rightarrow> qa_pair list \<Rightarrow> ustr \<times> ustr \<times> rat \<Rightarrow> ustr \<times> ustr \<times> rat" where
  "scan_pairs U user_question [] best = best"
| "scan_pairs U user_question ((question, answer) # rest) (best_match, best_answer, best_score) =
     (if current_score U user_question question > best_score
      then (if current_score U user_question question \<ge> 95 / 100
            then (question, answer, current_score U user_question question)
            else scan_pairs U user_question rest
                   (question, answer, current_score U user_question question))
      else scan_pairs U user_question rest (best_match, best_answer, best_score))"

definition find_best_match_extended ::
  "'u unicode_db_scheme \<Rightarrow> ustr \<Rightarrow> qa_pair list \<Rightarrow> ustr \<times> ustr \<times> rat" where
  "find_best_match_extended U user_question qa_pairs =
     (if qa_pairs = [] then ([], [], 0)
      else scan_pairs U user_question qa_pairs ([], [], 0))"

text \<open>
  \<^verbatim>\<open>
  @lru_cache(maxsize=CACHE_SIZE)
  def get_api_response(messages):
      try:
          response = openai.ChatCompletion.create(model=..., messages=[...], ...)
          return clean_response(response.choices[0].message['content'])
      except Exception:
          return DEFAULT_RESPONSE
  \<close>
\<close>

definition get_api_response_wrapped ::
  "'u unicode_db_scheme \<Rightarrow> api \<Rightarrow> message list \<Rightarrow> ustr" where
  "get_api_response_wrapped U api messages =
     (case and_then (api messages) (clean_response U) of
        Inl e \<Rightarrow> DEFAULT_RESPONSE
      | Inr response \<Rightarrow> response)"

definition get_api_response ::
  "'u unicode_db_scheme \<Rightarrow> api \<Rightarrow> state \<Rightarrow> message list \<Rightarrow> ustr \<times> state" where
  "get_api_response U api st messages =
     (case map_of (api_cache st) messages of
        Some response \<Rightarrow> (response, st\<lparr>api_cache := lru_hit messages response (api_cache st)\<rparr>)
      | None \<Rightarrow>
          (let response = get_api_response_wrapped U api messages
           in (response,
               st\<lparr>requests := requests st @ [messages],
                  api_cache := lru_store messages response (api_cache st)\<rparr>)))"

text \<open>
  The literal parts of the user message, in Russian: "Question: ", "Similar question: ",
  "Answer to the similar question: ", "Give a short answer to the first question, using the
  second answer as context."; the hedging phrase "Perhaps this is a suitable answer:" with
  its two line feeds; and the reply to a blank question, "Please ask a question.".
\<close>

definition QUESTION_LABEL :: ustr where
  "QUESTION_LABEL = [0x412, 0x43E, 0x43F, 0x440, 0x43E, 0x441, 0x3A, 0x20]"

definition SIMILAR_LABEL :: ustr where
  "SIMILAR_LABEL =
     [0x41F, 0x43E, 0x445, 0x43E, 0x436, 0x438, 0x439, 0x20, 0x432, 0x43E, 0x43F, 0x440,
      0x43E, 0x441, 0x3A, 0x20]"

definition ANSWER_LABEL :: ustr where
  "ANSWER_LABEL =
     [0x41E, 0x442, 0x432, 0x435, 0x442, 0x20, 0x43D, 0x430, 0x20, 0x43F, 0x43E, 0x445,
      0x43E, 0x436, 0x438, 0x439, 0x20, 0x432, 0x43E, 0x43F, 0x440, 0x43E, 0x441, 0x3A, 0x20]"

definition INSTRUCTION :: ustr where
  "INSTRUCTION =
     [0x414, 0x430, 0x439, 0x442, 0x435, 0x20, 0x43A, 0x440, 0x430, 0x442, 0x43A, 0x438,
      0x439, 0x20, 0x43E, 0x442, 0x432, 0x435, 0x442, 0x20, 0x43D, 0x430, 0x20, 0x43F,
      0x435, 0x440, 0x432, 0x44B, 0x439, 0x20, 0x432, 0x43E, 0x43F, 0x440, 0x43E, 0x441,
      0x2C, 0x20, 0x438, 0x441, 0x43F, 0x43E, 0x43B, 0x44C, 0x437, 0x443, 0x44F, 0x20,
      0x432, 0x442, 0x43E, 0x440, 0x43E, 0x439, 0x20, 0x43E, 0x442, 0x432, 0x435, 0x442,
      0x20, 0x43A, 0x430, 0x43A, 0x20, 0x43A, 0x43E, 0x43D, 0x442, 0x435, 0x43A, 0x441,
      0x442, 0x2E]"

definition HEDGE :: ustr where
  "HEDGE =
     [0x412, 0x43E, 0x437, 0x43C, 0x43E, 0x436, 0x43D, 0x43E, 0x2C, 0x20, 0x44D, 0x442,
      0x43E, 0x20, 0x43F, 0x43E, 0x434, 0x445, 0x43E, 0x434, 0x44F, 0x449, 0x438, 0x439,
      0x20, 0x43E, 0x442, 0x432, 0x435, 0x442, 0x3A, 0xA, 0xA]"

definition ASK_A_QUESTION :: ustr where
  "ASK_A_QUESTION =
     [0x41F, 0x43E, 0x436, 0x430, 0x43B, 0x443, 0x439, 0x441, 0x442, 0x430, 0x2C, 0x20,
      0x437, 0x430, 0x434, 0x430, 0x439, 0x442, 0x435, 0x20, 0x432, 0x43E, 0x43F, 0x440,
      0x43E, 0x441, 0x2E]"

text \<open>The two-message exchange that \<open>generate_smart_response\<close> builds for a partial match.\<close>

definition exchange :: "ustr \<Rightarrow> ustr \<Rightarrow> ustr \<Rightarrow> message list" where
  "exchange user_question matched_question matched_answer =
     [(ascii ''system'', SYSTEM_PROMPT),
      (ascii ''user'',
       QUESTION_LABEL @ user_question @ [0xA] @
       SIMILAR_LABEL @ matched_question @ [0xA] @
       ANSWER_LABEL @ matched_answer @ [0xA, 0xA] @
       INSTRUCTION)]"

text \<open>
  \<^verbatim>\<open>
  def generate_smart_response(user_question, matched_question, matched_answer,
                              similarity_score):
      if similarity_score >= SIMILARITY_GOOD:
          return matched_answer
      elif similarity_score >= SIMILARITY_PARTIAL:
          messages = (("system", SYSTEM_PROMPT), ("user", ...))
          response = get_api_response(messages)
          return f"...:\n\n{response}"
      else:
          return DEFAULT_RESPONSE
  \<close>
\<close>

definition generate_smart_response ::
  "'u unicode_db_scheme \<Rightarrow> api \<Rightarrow> state \<Rightarrow> ustr \<Rightarrow> ustr \<Rightarrow> ustr \<Rightarrow> rat \<Rightarrow> ustr \<times> state" where
  "generate_smart_response U api st user_question matched_question matched_answer
       similarity_score =
     (if similarity_score \<ge> SIMILARITY_GOOD then (matched_answer, st)
      else if similarity_score \<ge> SIMILARITY_PARTIAL then
        (case get_api_response U api st
                (exchange user_question matched_question matched_answer) of
           (response, st') \<Rightarrow> (HEDGE @ response, st'))
      else (DEFAULT_RESPONSE, st))"

text \<open>
  \<^verbatim>\<open>
  def ask_assistant(user_question, questions_file="knowledge.txt",
                    answers_file="knowledge1.txt"):
      if not user_question.strip():
          return "..."
      if not should_process(user_question):
          return DEFAULT_RESPONSE
      qa_pairs = load_qa_pairs(questions_file, answers_file)
      matched_question, matched_answer, similarity_score = \
          find_best_match_extended(user_question, qa_pairs)
      if not matched_answer:
          return DEFAULT_RESPONSE
      return generate_smart_response(...)
  \<close>
  An exception of \<open>load_qa_pairs\<close> leaves \<open>ask_assistant\<close> as it is.
\<close>

definition ask_assistant ::
  "'u unicode_db_scheme \<Rightarrow> filesystem \<Rightarrow> api \<Rightarrow> state \<Rightarrow> ustr \<Rightarrow> path \<Rightarrow> path \<Rightarrow>
   (py_exception + ustr) \<times> state" where
  "ask_assistant U fs api st user_question questions_file answers_file =
     (if strip user_question = [] then (Inr ASK_A_QUESTION, st)
      else if \<not> should_process U user_question then (Inr DEFAULT_RESPONSE, st)
      else
        (case load_qa_pairs U fs st questions_file answers_file of
           (Inl e, st1) \<Rightarrow> (Inl e, st1)
         | (Inr qa_pairs, st1) \<Rightarrow>
             (case find_best_match_extended U user_question qa_pairs of
                (matched_question, matched_answer, similarity_score) \<Rightarrow>
                  if matched_answer = [] then (Inr DEFAULT_RESPONSE, st1)
                  else
                    (case generate_smart_response U api st1 user_question matched_question
                            matched_answer similarity_score of
                       (response, st2) \<Rightarrow> (Inr response, st2)))))"

section \<open>Concrete inputs\<close>

text \<open>
  Character tables for evaluating examples: the ASCII digits, and lower-casing of Basic
  Latin and of the Cyrillic capitals. On text of these two scripts they agree with Python.
\<close>

definition lower_code_point :: "nat \<Rightarrow> nat" where
  "lower_code_point c =
     (if 0x41 \<le> c \<and> c \<le> 0x5A then c + 0x20
      else if 0x410 \<le> c \<and> c \<le> 0x42F then c + 0x20
      else if 0x400 \<le> c \<and> c \<le> 0x40F then c + 0x50
      else c)"

definition latin_cyrillic :: unicode_db where
  "latin_cyrillic =
     \<lparr>isdigit = (\<lambda>c. 0x30 \<le> c \<and> c \<le> 0x39), lower = map lower_code_point\<rparr>"

text \<open>The state of a fresh process: empty caches, nothing opened, nothing requested.\<close>

definition fresh :: state where
  "fresh = \<lparr>qa_cache = [], api_cache = [], opened = [], requests = []\<rparr>"

text \<open>A file system with a questions file and an answers file under the default names.\<close>

definition knowledge :: "file_node \<Rightarrow> file_node \<Rightarrow> filesystem" where
  "knowledge questions answers =
     (\<lambda>p. if p = ascii ''knowledge.txt'' then questions
          else if p = ascii ''knowledge1.txt'' then answers
          else Missing)"

section \<open>Text search and \<open>clean_response\<close>\<close>

lemma startswith_take:
  "startswith (take n s) sub \<longleftrightarrow> startswith s sub \<and> length sub \<le> n"
proof (induction s sub arbitrary: n rule: startswith.induct)
  case (1 s)
  then show ?case by simp
next
  case (2 p ps)
  then show ?case by simp
next
  case (3 c cs p ps)
  then show ?case by (cases n) auto
qed

lemma str_find_take:
  "str_find (take n s) sub = Some i \<longleftrightarrow> str_find s sub = Some i \<and> i + length sub \<le> n"
proof (induction s arbitrary: n i)
  case Nil
  then show ?case by auto
next
  case (Cons c cs)
  show ?case
  proof (cases n)
    case 0
    then show ?thesis by (cases sub) auto
  next
    case (Suc m)
    have sw: "startswith (c # take m cs) sub \<longleftrightarrow> startswith (c # cs) sub \<and> length sub \<le> Suc m"
      using startswith_take [of "Suc m" "c # cs" sub] by simp
    show ?thesis
    proof (cases "startswith (c # cs) sub")
      case True
      then show ?thesis using Suc sw Cons.IH [of m] by auto
    next
      case False
      then show ?thesis using Suc sw Cons.IH [of m] by auto
    qed
  qed
qed

lemma contains_str_find: "contains sub s \<longleftrightarrow> (\<exists>i. str_find s sub = Some i)"
  by (induction s) auto

lemma contains_prefix:
  "contains (ascii ''. '') (take 5 a) \<longleftrightarrow> (\<exists>i\<le>3. str_find a (ascii ''. '') = Some i)"
proof -
  have "length (ascii ''. '') = 2" by (simp add: ascii_def)
  then show ?thesis
    unfolding contains_str_find str_find_take by auto
qed

lemma clean_response_eq:
  "clean_response U a =
     Inr (case str_find a (ascii ''. '') of
            None \<Rightarrow> a
          | Some i \<Rightarrow> if isdigit U (a ! 0) \<and> i \<le> 3 then drop (i + 2) a else a)"
proof (cases "str_find a (ascii ''. '')")
  case None
  then show ?thesis by (simp add: clean_response_def contains_prefix)
next
  case (Some i)
  have len: "length (ascii ''. '') = 2" by (simp add: ascii_def)
  have "a \<noteq> []" using Some by (auto simp: ascii_def)
  then show ?thesis
    using Some len by (simp add: clean_response_def contains_prefix split1_def getitem_def)
qed

section \<open>The loader\<close>

lemma map_exc_clean_response:
  "\<exists>ys. map_exc (clean_response U) xs = Inr ys \<and> map Inr ys = map (clean_response U) xs"
proof (induction xs)
  case Nil
  then show ?case by simp
next
  case (Cons x xs)
  then obtain ys where ys: "map_exc (clean_response U) xs = Inr ys"
    "map Inr ys = map (clean_response U) xs" by blast
  obtain y where y: "clean_response U x = Inr y"
    using clean_response_eq by blast
  show ?case using ys y by (simp add: and_then_def)
qed

lemma read_qa_pairs_Text:
  assumes "fs qp = Text qt" and "fs ap = Text atxt"
  shows "\<exists>answers.
           read_qa_pairs U fs qp ap =
             Inr (zip (retained (file_lines (universal_newlines qt))) answers) \<and>
           map Inr answers =
             map (clean_response U) (retained (file_lines (universal_newlines atxt)))"
proof -
  obtain answers where a:
    "map_exc (clean_response U) (retained (file_lines (universal_newlines atxt))) = Inr answers"
    "map Inr answers = map (clean_response U) (retained (file_lines (universal_newlines atxt)))"
    using map_exc_clean_response by blast
  have "read_qa_pairs U fs qp ap =
      Inr (zip (retained (file_lines (universal_newlines qt))) answers)"
    using assms a(1) by (simp add: read_qa_pairs_def open_r_def read_lines_def and_then_def)
  with a(2) show ?thesis by blast
qed

lemma load_qa_pairs_miss:
  assumes "map_of (qa_cache st) (qp, ap) = None"
  shows "fst (load_qa_pairs U fs st qp ap) = load_qa_pairs_wrapped U fs qp ap"
  using assms by (simp add: load_qa_pairs_def Let_def split: sum.split)

lemma load_qa_pairs_Text:
  assumes "map_of (qa_cache st) (qp, ap) = None" and "fs qp = Text qt" and "fs ap = Text atxt"
  shows "\<exists>answers.
           fst (load_qa_pairs U fs st qp ap) =
             Inr (zip (retained (file_lines (universal_newlines qt))) answers) \<and>
           map Inr answers =
             map (clean_response U) (retained (file_lines (universal_newlines atxt)))"
proof -
  obtain answers where a:
    "read_qa_pairs U fs qp ap = Inr (zip (retained (file_lines (universal_newlines qt))) answers)"
    "map Inr answers = map (clean_response U) (retained (file_lines (universal_newlines atxt)))"
    using read_qa_pairs_Text [OF assms(2,3)] by blast
  have "fst (load_qa_pairs U fs st qp ap) =
      Inr (zip (retained (file_lines (universal_newlines qt))) answers)"
    using a(1) by (simp add: load_qa_pairs_miss [OF assms(1)] load_qa_pairs_wrapped_def)
  with a(2) show ?thesis by blast
qed

lemmas eval_text = ascii_def strip_def isspace_def latin_cyrillic_def lower_code_point_def

lemmas eval_load =
  load_qa_pairs_def fresh_def knowledge_def paths_opened_def open_r_def
  load_qa_pairs_wrapped_def read_qa_pairs_def read_lines_def and_then_def retained_def
  clean_response_def getitem_def split1_def lru_store_def lru_hit_def CACHE_SIZE_def

section \<open>The response generator\<close>

lemma get_api_response_miss:
  assumes "map_of (api_cache st) messages = None"
  shows "get_api_response U api st messages =
           (get_api_response_wrapped U api messages,
            st\<lparr>requests := requests st @ [messages],
               api_cache :=
                 lru_store messages (get_api_response_wrapped U api messages) (api_cache st)\<rparr>)"
  using assms by (simp add: get_api_response_def Let_def)

lemma ask_assistant_processed:
  assumes "strip uq \<noteq> []" and "should_process U uq"
    and "load_qa_pairs U fs st qf af = (Inr kb, st1)"
    and "find_best_match_extended U uq kb = (mq, ma, s)" and "ma \<noteq> []"
  shows "ask_assistant U fs api st uq qf af =
           (Inr (fst (generate_smart_response U api st1 uq mq ma s)),
            snd (generate_smart_response U api st1 uq mq ma s))"
  using assms by (simp add: ask_assistant_def split: prod.split)

lemma hedge_not_empty: "HEDGE @ r \<noteq> r"
  by (simp add: HEDGE_def)

lemma price_list_score:
  "find_best_match_extended latin_cyrillic (ascii ''price list'')
     [(ascii ''pricing'', ascii ''See the catalogue'')] =
   (ascii ''pricing'', ascii ''See the catalogue'', 10 / 17)"
proof -
  have "ratio [112, 114, 105, 99, 101, 32, 108, 105, 115, 116] [112, 114, 105, 99, 105, 110, 103] = 10 / 17"
    by code_simp
  then have "current_score latin_cyrillic (ascii ''price list'') (ascii ''pricing'') = 10 / 17"
    by (simp add: current_score_def eval_text)
  then show ?thesis
    by (simp add: find_best_match_extended_def)
qed

lemma price_list_loaded:
  "fst (load_qa_pairs latin_cyrillic
          (knowledge (Text (ascii ''pricing'' @ [0xA])) (Text (ascii ''See the catalogue'' @ [0xA])))
          fresh (ascii ''knowledge.txt'') (ascii ''knowledge1.txt''))
     = Inr [(ascii ''pricing'', ascii ''See the catalogue'')] \<and>
   api_cache (snd (load_qa_pairs latin_cyrillic
          (knowledge (Text (ascii ''pricing'' @ [0xA])) (Text (ascii ''See the catalogue'' @ [0xA])))
          fresh (ascii ''knowledge.txt'') (ascii ''knowledge1.txt''))) = []"
  by (simp add: eval_text eval_load)

lemma price_list_processed:
  "strip (ascii ''price list'') \<noteq> [] \<and> should_process latin_cyrillic (ascii ''price list'')"
  by (simp add: eval_text should_process_def GREETINGS_def)

section \<open>Identical sequences have ratio 1\<close>

lemma diag_le: "diag b r \<le> r + 1"
  by (induction r) auto

lemma b2j_cases: "b2j b x = [] \<or> b2j b x = filter (\<lambda>j. b ! j = x) [0..<length b]"
  by (simp add: b2j_def Let_def)

lemma b2j_mem: "j \<in> set (b2j b x) \<Longrightarrow> j < length b \<and> b ! j = x"
  using b2j_cases [of b x] by auto

lemma b2j_self: "b2j b (b ! i) \<noteq> [] \<Longrightarrow> i < length b \<Longrightarrow> i \<in> set (b2j b (b ! i))"
  using b2j_cases [of b "b ! i"] by auto

lemma b2j_sorted: "sorted (b2j b x) \<and> distinct (b2j b x)"
proof -
  have "sorted (filter (\<lambda>j. b ! j = x) [0..<length b])"
    by (rule sorted_wrt_filter) simp
  then show ?thesis
    using b2j_cases [of b x] by auto
qed

lemma scan_row_diag:
  assumes "scan_row i 0 n j2len js (newj2len, besti, bestj, bestsize) = (n', bi', bj', bs')"
    and "sorted js" and "distinct js" and "\<forall>j\<in>set js. j < n \<and> b ! j = b ! i"
    and "b2j b (b ! i) \<noteq> []"
    and "\<forall>j. j2len j \<le> diag b j"
    and "\<forall>j. j2len j \<le> (if i = 0 then 0 else diag b (i - 1))"
    and "i > 0 \<longrightarrow> j2len (i - 1) = diag b (i - 1)"
    and "besti = bestj"
    and "\<forall>j. newj2len j \<le> diag b j"
    and "\<forall>j. newj2len j \<le> diag b i"
    and "\<forall>r<i. diag b r \<le> bestsize"
    and "i \<in> set js \<or> (newj2len i = diag b i \<and> diag b i \<le> bestsize)"
    and "besti + bestsize \<le> i + 1"
  shows "bi' = bj' \<and> (\<forall>j. n' j \<le> diag b j) \<and> (\<forall>j. n' j \<le> diag b i) \<and>
         (\<forall>r<i. diag b r \<le> bs') \<and> n' i = diag b i \<and> diag b i \<le> bs' \<and> bi' + bs' \<le> i + 1"
  using assms(1-4,9-14)
proof (induction js arbitrary: newj2len besti bestj bestsize)
  case Nil
  then show ?case by simp
next
  case (Cons j js)
  let ?k = "(if j = 0 then 0 else j2len (j - 1)) + 1"
  let ?new = "newj2len(j := ?k)"
  have jn: "j < n" and bj: "b ! j = b ! i"
    using Cons.prems(4) by auto
  have dj: "diag b j = (if j = 0 then 0 else diag b (j - 1)) + 1"
    using assms(5) bj by (cases j) auto
  have di: "diag b i = (if i = 0 then 0 else diag b (i - 1)) + 1"
    using assms(5) by (cases i) auto
  have kj: "?k \<le> diag b j"
    using dj assms(6) [rule_format, of "j - 1"] by auto
  have ki: "?k \<le> diag b i"
    using di assms(7) [rule_format, of "j - 1"] by auto
  have rest: "sorted js" "distinct js" "\<forall>x\<in>set js. x < n \<and> b ! x = b ! i"
    using Cons.prems(2,3,4) by auto
  have new1: "\<forall>x. ?new x \<le> diag b x"
  proof
    fix x
    show "?new x \<le> diag b x"
      using kj Cons.prems(6) [rule_format, of x]
      by (cases "x = j") (simp_all only: fun_upd_apply simp_thms if_True if_False)
  qed
  have new2: "\<forall>x. ?new x \<le> diag b i"
  proof
    fix x
    show "?new x \<le> diag b i"
      using ki Cons.prems(7) [rule_format, of x]
      by (cases "x = j") (simp_all only: fun_upd_apply simp_thms if_True if_False)
  qed
  show ?case
  proof (cases "?k > bestsize")
    case True
    have ji: "j = i"
    proof (rule ccontr)
      assume ne: "j \<noteq> i"
      show False
      proof (cases "j < i")
        case True
        then have "diag b j \<le> bestsize" using Cons.prems(8) by simp
        with kj \<open>?k > bestsize\<close> show False by simp
      next
        case False
        with ne have "i < j" by simp
        then have "i \<notin> set (j # js)" using Cons.prems(2) by auto
        then have "diag b i \<le> bestsize" using Cons.prems(9) by simp
        with ki \<open>?k > bestsize\<close> show False by simp
      qed
    qed
    have kd: "?k = diag b i"
      using ji di assms(8) by auto
    have step: "scan_row i 0 n j2len js (?new, i + 1 - ?k, j + 1 - ?k, ?k) = (n', bi', bj', bs')"
      using Cons.prems(1) jn True by (simp add: Let_def)
    have "\<forall>r<i. diag b r \<le> ?k"
      using Cons.prems(8) True by (meson le_trans less_imp_le_nat)
    moreover have "i \<in> set js \<or> (?new i = diag b i \<and> diag b i \<le> ?k)"
      using ji kd by simp
    moreover have "i + 1 - ?k = j + 1 - ?k" using ji by simp
    moreover have "i + 1 - ?k + ?k \<le> i + 1"
      using ki diag_le [of b i] by simp
    ultimately show ?thesis
      using Cons.IH [OF step rest _ new1 new2] by blast
  next
    case False
    have step: "scan_row i 0 n j2len js (?new, besti, bestj, bestsize) = (n', bi', bj', bs')"
      using Cons.prems(1) jn False by (simp add: Let_def)
    have "i \<in> set js \<or> (?new i = diag b i \<and> diag b i \<le> bestsize)"
    proof (cases "j = i")
      case True
      then have "?k = diag b i" using di assms(8) by auto
      with True False show ?thesis by simp
    next
      case ne: False
      then show ?thesis using Cons.prems(9) by auto
    qed
    then show ?thesis
      using Cons.IH [OF step rest Cons.prems(5) new1 new2 Cons.prems(8) _ Cons.prems(10)]
      by blast
  qed
qed

lemma scan_rows_diag:
  assumes "scan_rows b b 0 (length b) [i..<length b] (j2len, besti, bestj, bestsize) =
             (bi', bj', bs')"
    and "i \<le> length b"
    and "\<forall>j. j2len j \<le> diag b j"
    and "\<forall>j. j2len j \<le> (if i = 0 then 0 else diag b (i - 1))"
    and "i > 0 \<longrightarrow> j2len (i - 1) = diag b (i - 1)"
    and "besti = bestj"
    and "\<forall>r<i. diag b r \<le> bestsize"
    and "besti + bestsize \<le> i"
  shows "bi' = bj' \<and> bi' + bs' \<le> length b"
  using assms
proof (induction "length b - i" arbitrary: i j2len besti bestj bestsize)
  case 0
  then show ?case by simp
next
  case (Suc m)
  then have lt: "i < length b" by simp
  obtain n' ci cj cs where row:
    "scan_row i 0 (length b) j2len (b2j b (b ! i)) (\<lambda>_. 0, besti, bestj, bestsize) =
       (n', ci, cj, cs)"
    by (metis prod_cases4)
  have step: "scan_rows b b 0 (length b) [Suc i..<length b] (n', ci, cj, cs) = (bi', bj', bs')"
    using Suc.prems(1) lt row by (simp add: upt_conv_Cons)
  have m: "m = length b - Suc i" using Suc.hyps(2) by simp
  have post: "ci = cj \<and> (\<forall>j. n' j \<le> diag b j) \<and> (\<forall>j. n' j \<le> diag b i) \<and>
         (\<forall>r<i. diag b r \<le> cs) \<and> n' i = diag b i \<and> diag b i \<le> cs \<and> ci + cs \<le> i + 1"
  proof (cases "b2j b (b ! i) = []")
    case True
    then have "(n', ci, cj, cs) = (\<lambda>_. 0, besti, bestj, bestsize)"
      using row by simp
    moreover have "diag b i = 0" using True by (cases i) auto
    ultimately show ?thesis using Suc.prems(6,7,8) by auto
  next
    case False
    show ?thesis
    proof (rule scan_row_diag [OF row])
      show "sorted (b2j b (b ! i))" "distinct (b2j b (b ! i))"
        using b2j_sorted by auto
      show "\<forall>j\<in>set (b2j b (b ! i)). j < length b \<and> b ! j = b ! i"
        using b2j_mem by blast
      show "i \<in> set (b2j b (b ! i)) \<or> (0 = diag b i \<and> diag b i \<le> bestsize)"
        using b2j_self [OF False lt] by simp
    qed (use False Suc.prems in auto)
  qed
  have "\<forall>r<Suc i. diag b r \<le> cs"
    using post by (auto simp: less_Suc_eq)
  then show ?case
    using Suc.hyps(1) [OF m step] lt post by auto
qed

lemma extend_back_same: "extend_back b b 0 0 (p, p, s) = (0, 0, s + p)"
proof (induction p arbitrary: s)
  case 0
  then show ?case by (simp add: extend_back.simps)
next
  case (Suc p)
  then show ?case by (subst extend_back.simps) simp
qed

lemma extend_forward_same:
  "s \<le> n \<Longrightarrow> extend_forward b b n n (0, 0, s) = (0, 0, n)"
proof (induction "n - s" arbitrary: s)
  case 0
  then show ?case by (simp add: extend_forward.simps)
next
  case (Suc m)
  then have lt: "s < n" by simp
  have "m = n - (s + 1)" using Suc.hyps(2) by simp
  then have "extend_forward b b n n (0, 0, s + 1) = (0, 0, n)"
    using Suc.hyps(1) lt by simp
  with lt show ?case by (subst extend_forward.simps) simp
qed

lemma find_longest_match_same:
  "find_longest_match b b 0 (length b) 0 (length b) = (0, 0, length b)"
proof -
  obtain si sj ss where s:
    "scan_rows b b 0 (length b) [0..<length b] (\<lambda>_. 0, 0, 0, 0) = (si, sj, ss)"
    by (metis prod_cases3)
  have "si = sj \<and> si + ss \<le> length b"
    by (rule scan_rows_diag [OF s]) auto
  then show ?thesis
    using s by (simp add: find_longest_match_def extend_back_same extend_forward_same)
qed

lemma matching_size_same: "matching_size b b 0 (length b) 0 (length b) = length b"
  by (subst matching_size.simps) (simp add: find_longest_match_same)

lemma ratio_same: "ratio b b = 1"
  by (simp add: ratio_def matching_size_same Let_def)


section \<open>The matcher\<close>

lemma scan_pairs_early_exit:
  assumes "bs < 95 / 100" and "i < length kb"
    and "95 / 100 \<le> current_score U uq (fst (kb ! i))"
    and "\<forall>j<i. current_score U uq (fst (kb ! j)) < 95 / 100"
  shows "scan_pairs U uq kb (bm, ba, bs) =
           (fst (kb ! i), snd (kb ! i), current_score U uq (fst (kb ! i)))"
  using assms
proof (induction kb arbitrary: i bm ba bs)
  case Nil
  then show ?case by simp
next
  case (Cons p kb)
  obtain q a where p: "p = (q, a)" by (cases p)
  show ?case
  proof (cases i)
    case 0
    then show ?thesis using Cons.prems p by simp
  next
    case (Suc i')
    have low: "current_score U uq q < 95 / 100"
      using Cons.prems(4) [rule_format, of 0] Suc p by simp
    have later: "i' < length kb" "95 / 100 \<le> current_score U uq (fst (kb ! i'))"
      "\<forall>j<i'. current_score U uq (fst (kb ! j)) < 95 / 100"
      using Cons.prems(2,3,4) Suc by auto
    show ?thesis
    proof (cases "current_score U uq q > bs")
      case True
      then show ?thesis
        using Cons.IH [OF low later] low p Suc by simp
    next
      case False
      then show ?thesis
        using Cons.IH [OF Cons.prems(1) later] p Suc by simp
    qed
  qed
qed

lemma scan_pairs_no_exit:
  assumes "\<forall>j<length kb. current_score U uq (fst (kb ! j)) < 95 / 100"
  shows "((\<forall>j<length kb. current_score U uq (fst (kb ! j)) \<le> bs) \<and>
          scan_pairs U uq kb (bm, ba, bs) = (bm, ba, bs)) \<or>
         (\<exists>i<length kb.
            scan_pairs U uq kb (bm, ba, bs) =
              (fst (kb ! i), snd (kb ! i), current_score U uq (fst (kb ! i))) \<and>
            bs < current_score U uq (fst (kb ! i)) \<and>
            (\<forall>j<i. current_score U uq (fst (kb ! j)) < current_score U uq (fst (kb ! i))) \<and>
            (\<forall>j<length kb.
               current_score U uq (fst (kb ! j)) \<le> current_score U uq (fst (kb ! i))))"
  using assms
proof (induction kb arbitrary: bm ba bs)
  case Nil
  then show ?case by simp
next
  case (Cons p kb)
  obtain q a where p: "p = (q, a)" by (cases p)
  let ?sc = "\<lambda>x. current_score U uq (fst x)"
  have low: "current_score U uq q < 95 / 100"
    using Cons.prems [rule_format, of 0] p by simp
  have rest: "\<forall>j<length kb. ?sc (kb ! j) < 95 / 100"
    using Cons.prems by auto
  show ?case
  proof (cases "current_score U uq q > bs")
    case True
    have step: "scan_pairs U uq (p # kb) (bm, ba, bs) =
        scan_pairs U uq kb (q, a, current_score U uq q)"
      using True low p by simp
    from Cons.IH [OF rest, of "current_score U uq q" q a]
    consider (keep) "\<forall>j<length kb. ?sc (kb ! j) \<le> current_score U uq q"
        "scan_pairs U uq kb (q, a, current_score U uq q) = (q, a, current_score U uq q)"
      | (later) i where "i < length kb"
        "scan_pairs U uq kb (q, a, current_score U uq q) =
           (fst (kb ! i), snd (kb ! i), ?sc (kb ! i))"
        "current_score U uq q < ?sc (kb ! i)"
        "\<forall>j<i. ?sc (kb ! j) < ?sc (kb ! i)"
        "\<forall>j<length kb. ?sc (kb ! j) \<le> ?sc (kb ! i)"
      by blast
    then show ?thesis
    proof cases
      case keep
      have "\<forall>j<length (p # kb). ?sc ((p # kb) ! j) \<le> ?sc ((p # kb) ! 0)"
        using keep(1) p by (auto simp: nth_Cons split: nat.split)
      then have "0 < length (p # kb) \<and>
          scan_pairs U uq (p # kb) (bm, ba, bs) =
            (fst ((p # kb) ! 0), snd ((p # kb) ! 0), ?sc ((p # kb) ! 0)) \<and>
          bs < ?sc ((p # kb) ! 0) \<and>
          (\<forall>j<0. ?sc ((p # kb) ! j) < ?sc ((p # kb) ! 0)) \<and>
          (\<forall>j<length (p # kb). ?sc ((p # kb) ! j) \<le> ?sc ((p # kb) ! 0))"
        using step keep(2) True p by simp
      then show ?thesis by blast
    next
      case later
      have "\<forall>j<Suc i. ?sc ((p # kb) ! j) < ?sc ((p # kb) ! Suc i)"
        using later(3,4) p by (auto simp: nth_Cons split: nat.split)
      moreover have "\<forall>j<length (p # kb). ?sc ((p # kb) ! j) \<le> ?sc ((p # kb) ! Suc i)"
        using later(3,5) p by (auto simp: nth_Cons split: nat.split)
      moreover have "bs < ?sc ((p # kb) ! Suc i)"
        using later(3) True by simp
      moreover have "scan_pairs U uq (p # kb) (bm, ba, bs) =
          (fst ((p # kb) ! Suc i), snd ((p # kb) ! Suc i), ?sc ((p # kb) ! Suc i))"
        using step later(2) by simp
      moreover have "Suc i < length (p # kb)"
        using later(1) by simp
      ultimately show ?thesis by blast
    qed
  next
    case False
    have step: "scan_pairs U uq (p # kb) (bm, ba, bs) = scan_pairs U uq kb (bm, ba, bs)"
      using False p by simp
    from Cons.IH [OF rest, of bs bm ba]
    consider (keep) "\<forall>j<length kb. ?sc (kb ! j) \<le> bs"
        "scan_pairs U uq kb (bm, ba, bs) = (bm, ba, bs)"
      | (later) i where "i < length kb"
        "scan_pairs U uq kb (bm, ba, bs) = (fst (kb ! i), snd (kb ! i), ?sc (kb ! i))"
        "bs < ?sc (kb ! i)"
        "\<forall>j<i. ?sc (kb ! j) < ?sc (kb ! i)"
        "\<forall>j<length kb. ?sc (kb ! j) \<le> ?sc (kb ! i)"
      by blast
    then show ?thesis
    proof cases
      case keep
      have "\<forall>j<length (p # kb). ?sc ((p # kb) ! j) \<le> bs"
        using keep(1) False p by (auto simp: nth_Cons split: nat.split)
      then show ?thesis using step keep(2) by simp
    next
      case later
      have "\<forall>j<Suc i. ?sc ((p # kb) ! j) < ?sc ((p # kb) ! Suc i)"
        using later(3,4) False p by (auto simp: nth_Cons split: nat.split)
      moreover have "\<forall>j<length (p # kb). ?sc ((p # kb) ! j) \<le> ?sc ((p # kb) ! Suc i)"
        using later(3,5) False p by (auto simp: nth_Cons split: nat.split)
      moreover have "bs < ?sc ((p # kb) ! Suc i)"
        using later(3) by simp
      moreover have "scan_pairs U uq (p # kb) (bm, ba, bs) =
          (fst ((p # kb) ! Suc i), snd ((p # kb) ! Suc i), ?sc ((p # kb) ! Suc i))"
        using step later(2) by simp
      moreover have "Suc i < length (p # kb)"
        using later(1) by simp
      ultimately show ?thesis by blast
    qed
  qed
qed

lemma opening_hours_scores:
  "current_score latin_cyrillic (ascii ''opening hours'') (ascii ''opening hours?'') = 26 / 27"
  "current_score latin_cyrillic (ascii ''opening hours'') (ascii ''opening hours'') = 1"
proof -
  have "ratio [111, 112, 101, 110, 105, 110, 103, 32, 104, 111, 117, 114, 115]
      [111, 112, 101, 110, 105, 110, 103, 32, 104, 111, 117, 114, 115, 63] = 26 / 27"
    by code_simp
  then show "current_score latin_cyrillic (ascii ''opening hours'') (ascii ''opening hours?'')
      = 26 / 27"
    by (simp add: current_score_def eval_text)
  show "current_score latin_cyrillic (ascii ''opening hours'') (ascii ''opening hours'') = 1"
    by (simp add: current_score_def ratio_same)
qed

lemma price_list_scores:
  "current_score latin_cyrillic (ascii ''price list'') (ascii ''delivery'') = 1 / 3"
  "current_score latin_cyrillic (ascii ''price list'') (ascii ''pricing'') = 10 / 17"
proof -
  have "ratio [112, 114, 105, 99, 101, 32, 108, 105, 115, 116] [100, 101, 108, 105, 118, 101, 114, 121] = 1 / 3"
    by code_simp
  then show "current_score latin_cyrillic (ascii ''price list'') (ascii ''delivery'') = 1 / 3"
    by (simp add: current_score_def eval_text)
  have "ratio [112, 114, 105, 99, 101, 32, 108, 105, 115, 116] [112, 114, 105, 99, 105, 110, 103] = 10 / 17"
    by code_simp
  then show "current_score latin_cyrillic (ascii ''price list'') (ascii ''pricing'') = 10 / 17"
    by (simp add: current_score_def eval_text)
qed

section \<open>What the loader stores and leaves alone\<close>

lemma load_qa_pairs_keeps_api:
  "requests (snd (load_qa_pairs U fs st qp ap)) = requests st \<and>
   api_cache (snd (load_qa_pairs U fs st qp ap)) = api_cache st"
  by (simp add: load_qa_pairs_def Let_def split: option.split sum.split)

lemma opening_hours_processed:
  "strip (ascii ''opening hours'') \<noteq> [] \<and>
   should_process latin_cyrillic (ascii ''opening hours'')"
  by (simp add: eval_text should_process_def GREETINGS_def)

lemma str_find_position:
  "str_find s sub = Some i \<Longrightarrow> startswith (drop i s) sub \<and> i \<le> length s"
proof (induction s arbitrary: i)
  case Nil
  then show ?case by (auto split: if_splits)
next
  case (Cons c cs)
  then show ?case by (auto split: if_splits)
qed

lemma strip_last: "strip x \<noteq> [] \<Longrightarrow> \<not> isspace (last (strip x))"
proof -
  assume ne: "strip x \<noteq> []"
  let ?ys = "dropWhile isspace (rev (dropWhile isspace x))"
  have "?ys \<noteq> []" using ne by (simp add: strip_def)
  then have "\<not> isspace (hd ?ys)" by (rule hd_dropWhile)
  moreover have "last (strip x) = hd ?ys"
    using \<open>?ys \<noteq> []\<close> by (simp add: strip_def last_rev)
  ultimately show ?thesis by simp
qed

lemma clean_response_of_stripped:
  assumes "strip x \<noteq> []" and "clean_response U (strip x) = Inr r"
  shows "r \<noteq> []"
proof (cases "str_find (strip x) (ascii ''. '')")
  case None
  then show ?thesis using assms by (simp add: clean_response_eq)
next
  case (Some i)
  let ?l = "strip x"
  have "startswith (drop i ?l) [0x2E, 0x20]" and "i \<le> length ?l"
    using str_find_position [OF Some] by (simp_all add: ascii_def)
  then obtain rest where d: "drop i ?l = 0x2E # 0x20 # rest"
    by (cases "drop i ?l"; cases "tl (drop i ?l)") auto
  have "rest \<noteq> []"
  proof
    assume "rest = []"
    with d have "drop i ?l = [0x2E, 0x20]" by simp
    then have "last ?l = 0x20"
      by (metis append_take_drop_id last.simps last_appendR list.distinct(1))
    then show False using strip_last [OF assms(1)] by (simp add: isspace_def)
  qed
  moreover have "drop (i + 2) ?l = rest"
    using d by (metis add.commute drop_drop drop_Suc_Cons drop0 numeral_2_eq_2)
  ultimately show ?thesis
    using assms Some by (auto simp: clean_response_eq split: if_splits)
qed

lemma loaded_answers_not_empty:
  assumes "map_of (qa_cache st) (qp, ap) = None" and "fs qp = Text qt" and "fs ap = Text atxt"
    and "fst (load_qa_pairs U fs st qp ap) = Inr pairs" and "p \<in> set pairs"
  shows "snd p \<noteq> []"
proof -
  let ?as = "retained (file_lines (universal_newlines atxt))"
  obtain answers where a:
    "fst (load_qa_pairs U fs st qp ap) =
       Inr (zip (retained (file_lines (universal_newlines qt))) answers)"
    "map Inr answers = map (clean_response U) ?as"
    using load_qa_pairs_Text [OF assms(1-3)] by blast
  have "snd p \<in> set answers"
    using a(1) assms(4,5) by (metis Inr_inject in_set_zipE prod.collapse)
  then obtain n where n: "n < length answers" "answers ! n = snd p"
    by (auto simp: in_set_conv_nth)
  have len: "length answers = length ?as"
    using a(2) by (metis length_map)
  have "map Inr answers ! n = map (clean_response U) ?as ! n"
    using a(2) by simp
  then have c: "clean_response U (?as ! n) = Inr (snd p)"
    using n len by simp
  have "?as ! n \<in> set ?as" using n len by simp
  then obtain x where x: "?as ! n = strip x" "strip x \<noteq> []"
    by (auto simp: retained_def)
  show ?thesis
    using clean_response_of_stripped [OF x(2)] c x(1) by simp
qed

section \<open>The claims\<close>

text \<open>
  C1, as the spec states it, fails: with a score in the partial band and the exchange
  already memoised by \<open>get_api_response\<close>, the generator does not call the API (the request
  log stays empty) and answers with the memoised text, not with what the API would return
  now.
\<close>

theorem memoised_exchange_is_not_sent:
  "fst (generate_smart_response latin_cyrillic (\<lambda>m. Inr (ascii ''New answer''))
          (fresh\<lparr>api_cache :=
             [(exchange (ascii ''price list'') (ascii ''pricing'') (ascii ''See the catalogue''),
               ascii ''Old answer'')]\<rparr>)
          (ascii ''price list'') (ascii ''pricing'') (ascii ''See the catalogue'') (5 / 10))
     = HEDGE @ ascii ''Old answer'' \<and>
   requests (snd (generate_smart_response latin_cyrillic (\<lambda>m. Inr (ascii ''New answer''))
          (fresh\<lparr>api_cache :=
             [(exchange (ascii ''price list'') (ascii ''pricing'') (ascii ''See the catalogue''),
               ascii ''Old answer'')]\<rparr>)
          (ascii ''price list'') (ascii ''pricing'') (ascii ''See the catalogue'') (5 / 10)))
     = [] \<and>
   HEDGE @ ascii ''Old answer'' \<noteq> HEDGE @ ascii ''New answer''"
  by (simp add: generate_smart_response_def SIMILARITY_GOOD_def SIMILARITY_PARTIAL_def
      get_api_response_def fresh_def ascii_def)

text \<open>
  C1, amended: the three bands of \<open>generate_smart_response\<close>. From 0.6 on, the matched
  answer as it is, and nothing else happens. From 0.4 up to 0.6, for the two-message
  exchange (system instruction, then the user message built from the three texts): if
  \<open>get_api_response\<close> has the exchange memoised, the answer is the hedging phrase followed by
  the memoised text and no request is sent; if not, exactly that exchange is sent to the
  API, once, and when the API returns a completion the answer is the hedging phrase
  followed by what \<open>clean_response\<close> makes of the completion. Below 0.4, the default refusal,
  and nothing else happens. (What is returned when the API raises is the subject of C3.)
\<close>

theorem three_band_policy:
  "(6 / 10 \<le> s \<longrightarrow> generate_smart_response U api st uq mq ma s = (ma, st)) \<and>
   (4 / 10 \<le> s \<and> s < 6 / 10 \<longrightarrow>
      (\<forall>memoised. map_of (api_cache st) (exchange uq mq ma) = Some memoised \<longrightarrow>
         fst (generate_smart_response U api st uq mq ma s) = HEDGE @ memoised \<and>
         requests (snd (generate_smart_response U api st uq mq ma s)) = requests st) \<and>
      (map_of (api_cache st) (exchange uq mq ma) = None \<longrightarrow>
         requests (snd (generate_smart_response U api st uq mq ma s)) =
           requests st @ [exchange uq mq ma] \<and>
         (\<forall>completion. api (exchange uq mq ma) = Inr completion \<longrightarrow>
            (\<exists>cleaned.
               clean_response U completion = Inr cleaned \<and>
               fst (generate_smart_response U api st uq mq ma s) = HEDGE @ cleaned)))) \<and>
   (s < 4 / 10 \<longrightarrow> generate_smart_response U api st uq mq ma s = (DEFAULT_RESPONSE, st)) \<and>
   exchange uq mq ma =
     [(ascii ''system'', SYSTEM_PROMPT),
      (ascii ''user'',
       QUESTION_LABEL @ uq @ [0xA] @ SIMILAR_LABEL @ mq @ [0xA] @
       ANSWER_LABEL @ ma @ [0xA, 0xA] @ INSTRUCTION)]"
proof -
  let ?g = "generate_smart_response U api st uq mq ma s"
  let ?x = "exchange uq mq ma"
  have good: "?g = (ma, st)" if "6 / 10 \<le> s"
    using that by (simp add: generate_smart_response_def SIMILARITY_GOOD_def)
  have none: "?g = (DEFAULT_RESPONSE, st)" if "s < 4 / 10"
    using that
    by (simp add: generate_smart_response_def SIMILARITY_GOOD_def SIMILARITY_PARTIAL_def)
  have band: "?g = (HEDGE @ fst (get_api_response U api st ?x), snd (get_api_response U api st ?x))"
    if "4 / 10 \<le> s" and "s < 6 / 10"
    using that
    by (simp add: generate_smart_response_def SIMILARITY_GOOD_def SIMILARITY_PARTIAL_def
        split: prod.split)
  have hit: "fst ?g = HEDGE @ memoised \<and> requests (snd ?g) = requests st"
    if "4 / 10 \<le> s" and "s < 6 / 10" and "map_of (api_cache st) ?x = Some memoised"
    for memoised
    using band [OF that(1,2)] that(3) by (simp add: get_api_response_def)
  have sent: "requests (snd ?g) = requests st @ [?x]"
    if "4 / 10 \<le> s" and "s < 6 / 10" and "map_of (api_cache st) ?x = None"
    using band [OF that(1,2)] get_api_response_miss [OF that(3), of U api] by simp
  have answered: "\<exists>cleaned. clean_response U completion = Inr cleaned \<and> fst ?g = HEDGE @ cleaned"
    if "4 / 10 \<le> s" and "s < 6 / 10" and "map_of (api_cache st) ?x = None"
      and "api ?x = Inr completion"
    for completion
  proof -
    obtain cleaned where c: "clean_response U completion = Inr cleaned"
      using clean_response_eq by blast
    then have "get_api_response_wrapped U api ?x = cleaned"
      using that(4) by (simp add: get_api_response_wrapped_def and_then_def)
    then have "fst ?g = HEDGE @ cleaned"
      using band [OF that(1,2)] get_api_response_miss [OF that(3), of U api] by simp
    with c show ?thesis by blast
  qed
  have shape: "?x =
     [(ascii ''system'', SYSTEM_PROMPT),
      (ascii ''user'',
       QUESTION_LABEL @ uq @ [0xA] @ SIMILAR_LABEL @ mq @ [0xA] @
       ANSWER_LABEL @ ma @ [0xA, 0xA] @ INSTRUCTION)]"
    by (simp add: exchange_def)
  show ?thesis
    using good none hit sent answered shape by blast
qed

theorem three_band_policy_witness:
  "generate_smart_response latin_cyrillic (\<lambda>m. Inr (ascii ''2. Ask the shop''))
     fresh (ascii ''price list'') (ascii ''pricing'') (ascii ''See the catalogue'') (6 / 10)
     = (ascii ''See the catalogue'', fresh) \<and>
   fst (generate_smart_response latin_cyrillic (\<lambda>m. Inr (ascii ''2. Ask the shop''))
     fresh (ascii ''price list'') (ascii ''pricing'') (ascii ''See the catalogue'') (4 / 10))
     = HEDGE @ ascii ''Ask the shop'' \<and>
   requests (snd (generate_smart_response latin_cyrillic (\<lambda>m. Inr (ascii ''2. Ask the shop''))
     fresh (ascii ''price list'') (ascii ''pricing'') (ascii ''See the catalogue'') (4 / 10)))
     = [exchange (ascii ''price list'') (ascii ''pricing'') (ascii ''See the catalogue'')] \<and>
   fst (generate_smart_response latin_cyrillic (\<lambda>m. Inr (ascii ''2. Ask the shop''))
     (fresh\<lparr>api_cache :=
        [(exchange (ascii ''price list'') (ascii ''pricing'') (ascii ''See the catalogue''),
          ascii ''Memoised answer'')]\<rparr>)
     (ascii ''price list'') (ascii ''pricing'') (ascii ''See the catalogue'') (59 / 100))
     = HEDGE @ ascii ''Memoised answer'' \<and>
   generate_smart_response latin_cyrillic (\<lambda>m. Inr (ascii ''2. Ask the shop''))
     fresh (ascii ''price list'') (ascii ''pricing'') (ascii ''See the catalogue'') (39 / 100)
     = (DEFAULT_RESPONSE, fresh)"
proof -
  let ?api = "\<lambda>m::message list. (Inr (ascii ''2. Ask the shop'') :: py_exception + ustr)"
  let ?x = "exchange (ascii ''price list'') (ascii ''pricing'') (ascii ''See the catalogue'')"
  let ?memo = "fresh\<lparr>api_cache := [(?x, ascii ''Memoised answer'')]\<rparr>"
  let ?g = "\<lambda>st. generate_smart_response latin_cyrillic ?api st (ascii ''price list'')
      (ascii ''pricing'') (ascii ''See the catalogue'')"
  have miss: "map_of (api_cache fresh) ?x = None"
    by (simp add: fresh_def)
  have held: "map_of (api_cache ?memo) ?x = Some (ascii ''Memoised answer'')"
    by simp
  have in_good: "(6::rat) / 10 \<le> 6 / 10" and in_none: "(39::rat) / 100 < 4 / 10"
    and in_band: "(4::rat) / 10 \<le> 59 / 100 \<and> (59::rat) / 100 < 6 / 10"
    and at_partial: "(4::rat) / 10 \<le> 4 / 10 \<and> (4::rat) / 10 < 6 / 10"
    by simp_all
  have good: "?g fresh (6 / 10) = (ascii ''See the catalogue'', fresh)"
    using three_band_policy [of "6 / 10" latin_cyrillic ?api fresh "ascii ''price list''"
        "ascii ''pricing''" "ascii ''See the catalogue''"] in_good
    by blast
  have none: "?g fresh (39 / 100) = (DEFAULT_RESPONSE, fresh)"
    using three_band_policy [of "39 / 100" latin_cyrillic ?api fresh "ascii ''price list''"
        "ascii ''pricing''" "ascii ''See the catalogue''"] in_none
    by blast
  have hit: "fst (?g ?memo (59 / 100)) = HEDGE @ ascii ''Memoised answer''"
    using three_band_policy [of "59 / 100" latin_cyrillic ?api ?memo "ascii ''price list''"
        "ascii ''pricing''" "ascii ''See the catalogue''"] held in_band
    by blast
  have "requests (snd (?g fresh (4 / 10))) = requests fresh @ [?x] \<and>
      (\<exists>cleaned. clean_response latin_cyrillic (ascii ''2. Ask the shop'') = Inr cleaned \<and>
         fst (?g fresh (4 / 10)) = HEDGE @ cleaned)"
    using three_band_policy [of "4 / 10" latin_cyrillic ?api fresh "ascii ''price list''"
        "ascii ''pricing''" "ascii ''See the catalogue''"] miss at_partial
    by blast
  then obtain cleaned where p: "requests (snd (?g fresh (4 / 10))) = requests fresh @ [?x]"
    "clean_response latin_cyrillic (ascii ''2. Ask the shop'') = Inr cleaned"
    "fst (?g fresh (4 / 10)) = HEDGE @ cleaned"
    by blast
  have "clean_response latin_cyrillic (ascii ''2. Ask the shop'') = Inr (ascii ''Ask the shop'')"
    by (simp add: clean_response_def getitem_def split1_def eval_text)
  with p have "fst (?g fresh (4 / 10)) = HEDGE @ ascii ''Ask the shop''"
    "requests (snd (?g fresh (4 / 10))) = [?x]"
    by (simp_all add: fresh_def)
  with good none hit show ?thesis by blast
qed

text \<open>
  C2, as the spec states it, fails: the answers line \<open>42. Special code\<close> is stored as
  \<open>Special code\<close>, because \<open>". "\<close> does occur within its first five characters.
\<close>

theorem two_digit_prefix_is_stripped:
  "fst (load_qa_pairs latin_cyrillic
          (knowledge (Text (ascii ''Code?'' @ [0xA])) (Text (ascii ''42. Special code'' @ [0xA])))
          fresh (ascii ''knowledge.txt'') (ascii ''knowledge1.txt''))
     = Inr [(ascii ''Code?'', ascii ''Special code'')] \<and>
   ascii ''Special code'' \<noteq> ascii ''42. Special code''"
  by (simp add: eval_text eval_load)

text \<open>
  C2, amended: on a load that reads the files, the stored answers are the retained answer
  lines (trimmed, non-empty), each without its text up to and including the first
  \<open>". "\<close> exactly when the line begins with a digit and that first \<open>". "\<close> starts at one of
  the positions 0 to 3, that is, lies within the first five characters; otherwise the line
  is stored as it is. One-, two- and three-digit numbers are stripped, longer ones are not.
\<close>

theorem enumeration_prefix_window:
  assumes "map_of (qa_cache st) (qp, ap) = None" and "fs qp = Text qt" and "fs ap = Text atxt"
  shows "\<exists>pairs.
           fst (load_qa_pairs U fs st qp ap) = Inr pairs \<and>
           map snd pairs =
             take (length (retained (file_lines (universal_newlines qt))))
               (map (\<lambda>l. case str_find l (ascii ''. '') of
                            None \<Rightarrow> l
                          | Some i \<Rightarrow> if isdigit U (l ! 0) \<and> i \<le> 3 then drop (i + 2) l else l)
                  (retained (file_lines (universal_newlines atxt))))"
proof -
  let ?qs = "retained (file_lines (universal_newlines qt))"
  let ?as = "retained (file_lines (universal_newlines atxt))"
  let ?f = "\<lambda>l. case str_find l (ascii ''. '') of
                 None \<Rightarrow> l
               | Some i \<Rightarrow> if isdigit U (l ! 0) \<and> i \<le> 3 then drop (i + 2) l else l"
  obtain answers where a: "fst (load_qa_pairs U fs st qp ap) = Inr (zip ?qs answers)"
    "map Inr answers = map (clean_response U) ?as"
    using load_qa_pairs_Text [OF assms] by blast
  have "map (clean_response U) ?as = map Inr (map ?f ?as)"
    by (simp add: clean_response_eq)
  with a(2) have "map Inr answers = (map Inr (map ?f ?as) :: (py_exception + ustr) list)"
    by simp
  then have "answers = map ?f ?as"
    using inj_map_eq_map [OF inj_Inr, of answers "map ?f ?as"] by blast
  moreover have "map snd (zip ?qs answers) = take (length ?qs) answers"
    by (simp add: map_snd_zip_take min_def)
  ultimately show ?thesis using a(1) by auto
qed

theorem enumeration_prefix_window_witness:
  "map_of (qa_cache fresh) (ascii ''knowledge.txt'', ascii ''knowledge1.txt'') = None \<and>
   (\<exists>pairs.
      fst (load_qa_pairs latin_cyrillic
             (knowledge (Text (ascii ''a'' @ [0xA] @ ascii ''b'' @ [0xA] @ ascii ''c'' @ [0xA] @ ascii ''d''))
                (Text (ascii ''1. Answer text'' @ [0xA] @ ascii ''42. Special code'' @ [0xA] @
                       ascii ''123. Text'' @ [0xA] @ ascii ''1234. Text'' @ [0xA])))
             fresh (ascii ''knowledge.txt'') (ascii ''knowledge1.txt'')) = Inr pairs \<and>
      map snd pairs =
        [ascii ''Answer text'', ascii ''Special code'', ascii ''Text'', ascii ''1234. Text''])"
proof -
  let ?fs = "knowledge (Text (ascii ''a'' @ [0xA] @ ascii ''b'' @ [0xA] @ ascii ''c'' @ [0xA] @ ascii ''d''))
                (Text (ascii ''1. Answer text'' @ [0xA] @ ascii ''42. Special code'' @ [0xA] @
                       ascii ''123. Text'' @ [0xA] @ ascii ''1234. Text'' @ [0xA]))"
  have miss: "map_of (qa_cache fresh) (ascii ''knowledge.txt'', ascii ''knowledge1.txt'') = None"
    by (simp add: fresh_def)
  have q: "?fs (ascii ''knowledge.txt'') =
      Text (ascii ''a'' @ [0xA] @ ascii ''b'' @ [0xA] @ ascii ''c'' @ [0xA] @ ascii ''d'')"
    by (simp add: knowledge_def)
  have a: "?fs (ascii ''knowledge1.txt'') =
      Text (ascii ''1. Answer text'' @ [0xA] @ ascii ''42. Special code'' @ [0xA] @
            ascii ''123. Text'' @ [0xA] @ ascii ''1234. Text'' @ [0xA])"
    by (simp add: knowledge_def ascii_def)
  show ?thesis
    using enumeration_prefix_window [OF miss q a, of latin_cyrillic] miss
    by (simp add: eval_text retained_def)
qed

text \<open>
  C3: what \<open>ask_assistant\<close> returns when the score is in the partial band, the exchange is
  not memoised and the API call raises. No exception leaves \<open>ask_assistant\<close>; but the answer
  is the default refusal behind the hedging phrase, not the default refusal itself.
\<close>

theorem api_failure_answer:
  assumes "strip uq \<noteq> []" and "should_process U uq"
    and "load_qa_pairs U fs st qf af = (Inr kb, st1)"
    and "find_best_match_extended U uq kb = (mq, ma, s)" and "ma \<noteq> []"
    and "4 / 10 \<le> s" and "s < 6 / 10"
    and "map_of (api_cache st1) (exchange uq mq ma) = None"
    and "api (exchange uq mq ma) = Inl e"
  shows "fst (ask_assistant U fs api st uq qf af) = Inr (HEDGE @ DEFAULT_RESPONSE) \<and>
         HEDGE @ DEFAULT_RESPONSE \<noteq> DEFAULT_RESPONSE"
proof -
  have "get_api_response_wrapped U api (exchange uq mq ma) = DEFAULT_RESPONSE"
    using assms(9) by (simp add: get_api_response_wrapped_def and_then_def)
  then have "fst (generate_smart_response U api st1 uq mq ma s) = HEDGE @ DEFAULT_RESPONSE"
    using assms(6,7) get_api_response_miss [OF assms(8), of U api]
    by (simp add: generate_smart_response_def SIMILARITY_GOOD_def SIMILARITY_PARTIAL_def)
  then show ?thesis
    using ask_assistant_processed [OF assms(1-5), of api] hedge_not_empty by simp
qed

theorem api_failure_answer_witness:
  "fst (ask_assistant latin_cyrillic
          (knowledge (Text (ascii ''pricing'' @ [0xA])) (Text (ascii ''See the catalogue'' @ [0xA])))
          (\<lambda>m. Inl APIConnectionError) fresh (ascii ''price list'')
          (ascii ''knowledge.txt'') (ascii ''knowledge1.txt''))
     = Inr (HEDGE @ DEFAULT_RESPONSE) \<and>
   HEDGE @ DEFAULT_RESPONSE \<noteq> DEFAULT_RESPONSE"
proof -
  let ?fs = "knowledge (Text (ascii ''pricing'' @ [0xA])) (Text (ascii ''See the catalogue'' @ [0xA]))"
  let ?q = "ascii ''knowledge.txt''" and ?a = "ascii ''knowledge1.txt''"
  let ?st1 = "snd (load_qa_pairs latin_cyrillic ?fs fresh ?q ?a)"
  have load: "load_qa_pairs latin_cyrillic ?fs fresh ?q ?a =
      (Inr [(ascii ''pricing'', ascii ''See the catalogue'')], ?st1)"
    using price_list_loaded by (metis prod.collapse)
  have miss: "map_of (api_cache ?st1)
      (exchange (ascii ''price list'') (ascii ''pricing'') (ascii ''See the catalogue'')) = None"
    using price_list_loaded by simp
  show ?thesis
    by (rule api_failure_answer [where e = APIConnectionError and s = "10 / 17",
          OF _ _ load price_list_score _ _ _ miss])
      (use price_list_processed in \<open>simp_all add: ascii_def\<close>)
qed

text \<open>
  C4: the matcher on an empty knowledge base; on one where pair \<open>i\<close> is the first to score
  0.95 or more (the result is pair \<open>i\<close> with its score, whatever follows it); and on one
  where no pair scores that much (the result is the first pair among those with the
  greatest score, if that score is above 0, and the empty match with score 0 otherwise).
\<close>

theorem matcher_scan_policy:
  "find_best_match_extended U uq [] = ([], [], 0) \<and>
   (\<forall>i<length kb.
      95 / 100 \<le> current_score U uq (fst (kb ! i)) \<and>
      (\<forall>j<i. current_score U uq (fst (kb ! j)) < 95 / 100) \<longrightarrow>
      find_best_match_extended U uq kb =
        (fst (kb ! i), snd (kb ! i), current_score U uq (fst (kb ! i)))) \<and>
   ((\<forall>j<length kb. current_score U uq (fst (kb ! j)) < 95 / 100) \<longrightarrow>
      ((\<forall>j<length kb. current_score U uq (fst (kb ! j)) \<le> 0) \<and>
       find_best_match_extended U uq kb = ([], [], 0)) \<or>
      (\<exists>i<length kb.
         find_best_match_extended U uq kb =
           (fst (kb ! i), snd (kb ! i), current_score U uq (fst (kb ! i))) \<and>
         0 < current_score U uq (fst (kb ! i)) \<and>
         (\<forall>j<i. current_score U uq (fst (kb ! j)) < current_score U uq (fst (kb ! i))) \<and>
         (\<forall>j<length kb.
            current_score U uq (fst (kb ! j)) \<le> current_score U uq (fst (kb ! i)))))"
proof (intro conjI allI impI)
  show "find_best_match_extended U uq [] = ([], [], 0)"
    by (simp add: find_best_match_extended_def)
next
  fix i
  assume i: "i < length kb"
    and hit: "95 / 100 \<le> current_score U uq (fst (kb ! i)) \<and>
      (\<forall>j<i. current_score U uq (fst (kb ! j)) < 95 / 100)"
  have "kb \<noteq> []" using i by auto
  moreover have "scan_pairs U uq kb ([], [], 0) =
      (fst (kb ! i), snd (kb ! i), current_score U uq (fst (kb ! i)))"
    by (rule scan_pairs_early_exit) (use i hit in auto)
  ultimately show "find_best_match_extended U uq kb =
      (fst (kb ! i), snd (kb ! i), current_score U uq (fst (kb ! i)))"
    by (simp add: find_best_match_extended_def)
next
  assume low: "\<forall>j<length kb. current_score U uq (fst (kb ! j)) < 95 / 100"
  show "((\<forall>j<length kb. current_score U uq (fst (kb ! j)) \<le> 0) \<and>
       find_best_match_extended U uq kb = ([], [], 0)) \<or>
      (\<exists>i<length kb.
         find_best_match_extended U uq kb =
           (fst (kb ! i), snd (kb ! i), current_score U uq (fst (kb ! i))) \<and>
         0 < current_score U uq (fst (kb ! i)) \<and>
         (\<forall>j<i. current_score U uq (fst (kb ! j)) < current_score U uq (fst (kb ! i))) \<and>
         (\<forall>j<length kb.
            current_score U uq (fst (kb ! j)) \<le> current_score U uq (fst (kb ! i))))"
  proof (cases "kb = []")
    case True
    then show ?thesis by (simp add: find_best_match_extended_def)
  next
    case False
    then have "find_best_match_extended U uq kb = scan_pairs U uq kb ([], [], 0)"
      by (simp add: find_best_match_extended_def)
    with scan_pairs_no_exit [OF low, of 0 "[]" "[]"] show ?thesis by simp
  qed
qed

theorem matcher_scan_policy_witness:
  "find_best_match_extended latin_cyrillic (ascii ''opening hours'')
     [(ascii ''opening hours?'', ascii ''Nine to five''),
      (ascii ''opening hours'', ascii ''Ten to six'')]
     = (ascii ''opening hours?'', ascii ''Nine to five'', 26 / 27) \<and>
   current_score latin_cyrillic (ascii ''opening hours'') (ascii ''opening hours'') = 1 \<and>
   find_best_match_extended latin_cyrillic (ascii ''price list'')
     [(ascii ''delivery'', ascii ''By post''),
      (ascii ''pricing'', ascii ''See the catalogue''),
      (ascii ''pricing'', ascii ''Ask the shop'')]
     = (ascii ''pricing'', ascii ''See the catalogue'', 10 / 17)"
proof -
  let ?kb1 = "[(ascii ''opening hours?'', ascii ''Nine to five''),
      (ascii ''opening hours'', ascii ''Ten to six'')]"
  let ?kb2 = "[(ascii ''delivery'', ascii ''By post''),
      (ascii ''pricing'', ascii ''See the catalogue''),
      (ascii ''pricing'', ascii ''Ask the shop'')]"
  let ?sc = "\<lambda>p. current_score latin_cyrillic (ascii ''price list'') (fst p)"
  have first: "find_best_match_extended latin_cyrillic (ascii ''opening hours'') ?kb1 =
      (ascii ''opening hours?'', ascii ''Nine to five'', 26 / 27)"
    using matcher_scan_policy [of latin_cyrillic "ascii ''opening hours''" ?kb1,
        THEN conjunct2, THEN conjunct1, rule_format, of 0]
    by (simp add: opening_hours_scores)
  have sc: "?sc (?kb2 ! 0) = 1 / 3" "?sc (?kb2 ! 1) = 10 / 17" "?sc (?kb2 ! 2) = 10 / 17"
    by (simp_all add: price_list_scores)
  have low: "\<forall>j<length ?kb2. ?sc (?kb2 ! j) < 95 / 100"
    using sc by (auto simp: less_Suc_eq numeral_3_eq_3)
  from matcher_scan_policy [of latin_cyrillic "ascii ''price list''" ?kb2,
      THEN conjunct2, THEN conjunct2, THEN mp, OF low]
  consider "\<forall>j<length ?kb2. ?sc (?kb2 ! j) \<le> 0"
    | i where "i < length ?kb2"
        "find_best_match_extended latin_cyrillic (ascii ''price list'') ?kb2 =
           (fst (?kb2 ! i), snd (?kb2 ! i), ?sc (?kb2 ! i))"
        "\<forall>j<i. ?sc (?kb2 ! j) < ?sc (?kb2 ! i)"
        "\<forall>j<length ?kb2. ?sc (?kb2 ! j) \<le> ?sc (?kb2 ! i)"
    by blast
  then have second: "find_best_match_extended latin_cyrillic (ascii ''price list'') ?kb2 =
      (ascii ''pricing'', ascii ''See the catalogue'', 10 / 17)"
  proof cases
    case 1
    from 1 [rule_format, of 0] sc(1) show ?thesis by simp
  next
    case 2
    consider "i = 0" | "i = 1" | "i = 2"
      using 2(1) by (auto simp: less_Suc_eq numeral_3_eq_3)
    then show ?thesis
    proof cases
      case 1
      with 2(4) [rule_format, of 1] sc show ?thesis by simp
    next
      case 2
      with \<open>find_best_match_extended latin_cyrillic (ascii ''price list'') ?kb2 =
           (fst (?kb2 ! i), snd (?kb2 ! i), ?sc (?kb2 ! i))\<close> sc show ?thesis by simp
    next
      case 3
      with 2(3) [rule_format, of 1] sc show ?thesis by simp
    qed
  qed
  from first second opening_hours_scores(2) show ?thesis by blast
qed

text \<open>
  C5, as the spec states it, fails: a blank input has a trimmed length of at most 3, and
  \<open>ask_assistant\<close> answers it with the request to ask a question, not with the default
  refusal.
\<close>

theorem blank_question_is_not_refused:
  "ask_assistant latin_cyrillic (knowledge Missing Missing) (\<lambda>m. Inl APIConnectionError) fresh
     (ascii ''  '') (ascii ''knowledge.txt'') (ascii ''knowledge1.txt'')
     = (Inr ASK_A_QUESTION, fresh) \<and>
   length (strip (ascii ''  '')) \<le> 3 \<and>
   ASK_A_QUESTION \<noteq> DEFAULT_RESPONSE"
  by (simp add: ask_assistant_def eval_text ASK_A_QUESTION_def DEFAULT_RESPONSE_def)

text \<open>
  C5, amended: for every input that is not blank and whose trimmed, lower-cased form has at
  most 3 characters or is one of the three greetings, \<open>ask_assistant\<close> returns the default
  refusal and leaves the state as it was: no file is opened, no request is sent, and the
  caches are untouched.
\<close>

theorem prefilter_refusal:
  assumes "strip uq \<noteq> []"
    and "length (lower U (strip uq)) \<le> 3 \<or> lower U (strip uq) \<in> set GREETINGS"
  shows "ask_assistant U fs api st uq qf af = (Inr DEFAULT_RESPONSE, st)"
proof -
  have "\<not> should_process U uq"
    using assms(2) by (auto simp: should_process_def Let_def)
  with assms(1) show ?thesis
    by (simp add: ask_assistant_def)
qed

theorem prefilter_refusal_witness:
  "ask_assistant latin_cyrillic
     (knowledge (Text (ascii ''Hi?'' @ [0xA])) (Text (ascii ''Hello'' @ [0xA])))
     (\<lambda>m. Inr (ascii ''Hello'')) fresh (ascii '' Hi? '')
     (ascii ''knowledge.txt'') (ascii ''knowledge1.txt'') = (Inr DEFAULT_RESPONSE, fresh) \<and>
   ask_assistant latin_cyrillic
     (knowledge (Text (ascii ''Hi?'' @ [0xA])) (Text (ascii ''Hello'' @ [0xA])))
     (\<lambda>m. Inr (ascii ''Hello'')) fresh [0x41F, 0x420, 0x418, 0x412, 0x415, 0x422]
     (ascii ''knowledge.txt'') (ascii ''knowledge1.txt'') = (Inr DEFAULT_RESPONSE, fresh)"
proof -
  have short: "strip (ascii '' Hi? '') \<noteq> []"
    "length (lower latin_cyrillic (strip (ascii '' Hi? ''))) \<le> 3 \<or>
     lower latin_cyrillic (strip (ascii '' Hi? '')) \<in> set GREETINGS"
    by (simp_all add: eval_text)
  have greeting: "strip [0x41F, 0x420, 0x418, 0x412, 0x415, 0x422] \<noteq> []"
    "length (lower latin_cyrillic (strip [0x41F, 0x420, 0x418, 0x412, 0x415, 0x422])) \<le> 3 \<or>
     lower latin_cyrillic (strip [0x41F, 0x420, 0x418, 0x412, 0x415, 0x422]) \<in> set GREETINGS"
    by (simp_all add: eval_text GREETINGS_def)
  from prefilter_refusal [OF short] prefilter_refusal [OF greeting] show ?thesis
    by blast
qed

text \<open>
  C6, as the spec states it, fails: the knowledge base holds the user's question
  \<open>opening hours\<close> with the answer \<open>Ten to six\<close>, but the pair before it,
  \<open>opening hours?\<close>, scores 26/27, which ends the scan; the score is not 1 and the answer is
  that of the earlier pair.
\<close>

theorem near_duplicate_shadows_exact_duplicate:
  "fst (load_qa_pairs latin_cyrillic
          (knowledge (Text (ascii ''opening hours?'' @ [0xA] @ ascii ''opening hours'' @ [0xA]))
             (Text (ascii ''Nine to five'' @ [0xA] @ ascii ''Ten to six'' @ [0xA])))
          fresh (ascii ''knowledge.txt'') (ascii ''knowledge1.txt''))
     = Inr [(ascii ''opening hours?'', ascii ''Nine to five''),
            (ascii ''opening hours'', ascii ''Ten to six'')] \<and>
   find_best_match_extended latin_cyrillic (ascii ''opening hours'')
     [(ascii ''opening hours?'', ascii ''Nine to five''),
      (ascii ''opening hours'', ascii ''Ten to six'')]
     = (ascii ''opening hours?'', ascii ''Nine to five'', 26 / 27) \<and>
   fst (ask_assistant latin_cyrillic
          (knowledge (Text (ascii ''opening hours?'' @ [0xA] @ ascii ''opening hours'' @ [0xA]))
             (Text (ascii ''Nine to five'' @ [0xA] @ ascii ''Ten to six'' @ [0xA])))
          (\<lambda>m. Inl APIConnectionError) fresh (ascii ''opening hours'')
          (ascii ''knowledge.txt'') (ascii ''knowledge1.txt''))
     = Inr (ascii ''Nine to five'') \<and>
   ascii ''Nine to five'' \<noteq> ascii ''Ten to six''"
proof -
  let ?fs = "knowledge (Text (ascii ''opening hours?'' @ [0xA] @ ascii ''opening hours'' @ [0xA]))
             (Text (ascii ''Nine to five'' @ [0xA] @ ascii ''Ten to six'' @ [0xA]))"
  let ?q = "ascii ''knowledge.txt''" and ?a = "ascii ''knowledge1.txt''"
  let ?kb = "[(ascii ''opening hours?'', ascii ''Nine to five''),
      (ascii ''opening hours'', ascii ''Ten to six'')]"
  have load: "fst (load_qa_pairs latin_cyrillic ?fs fresh ?q ?a) = Inr ?kb"
    by (simp add: eval_text eval_load)
  then have load': "load_qa_pairs latin_cyrillic ?fs fresh ?q ?a =
      (Inr ?kb, snd (load_qa_pairs latin_cyrillic ?fs fresh ?q ?a))"
    by (metis prod.collapse)
  have best: "find_best_match_extended latin_cyrillic (ascii ''opening hours'') ?kb =
      (ascii ''opening hours?'', ascii ''Nine to five'', 26 / 27)"
    by (simp add: find_best_match_extended_def opening_hours_scores)
  have ne: "ascii ''Nine to five'' \<noteq> []"
    by (simp add: ascii_def)
  have ask: "ask_assistant latin_cyrillic ?fs (\<lambda>m. Inl APIConnectionError) fresh
      (ascii ''opening hours'') ?q ?a =
      (Inr (fst (generate_smart_response latin_cyrillic (\<lambda>m. Inl APIConnectionError)
              (snd (load_qa_pairs latin_cyrillic ?fs fresh ?q ?a)) (ascii ''opening hours'')
              (ascii ''opening hours?'') (ascii ''Nine to five'') (26 / 27))),
       snd (generate_smart_response latin_cyrillic (\<lambda>m. Inl APIConnectionError)
              (snd (load_qa_pairs latin_cyrillic ?fs fresh ?q ?a)) (ascii ''opening hours'')
              (ascii ''opening hours?'') (ascii ''Nine to five'') (26 / 27)))"
    by (rule ask_assistant_processed [OF _ _ load' best ne])
      (use opening_hours_processed in simp_all)
  have "fst (generate_smart_response latin_cyrillic (\<lambda>m. Inl APIConnectionError)
              (snd (load_qa_pairs latin_cyrillic ?fs fresh ?q ?a)) (ascii ''opening hours'')
              (ascii ''opening hours?'') (ascii ''Nine to five'') (26 / 27)) =
      ascii ''Nine to five''"
    by (simp add: generate_smart_response_def SIMILARITY_GOOD_def)
  then have "fst (ask_assistant latin_cyrillic ?fs (\<lambda>m. Inl APIConnectionError) fresh
      (ascii ''opening hours'') ?q ?a) = Inr (ascii ''Nine to five'')"
    by (simp only: ask fst_conv)
  moreover have "ascii ''Nine to five'' \<noteq> ascii ''Ten to six''"
    by (simp add: ascii_def)
  ultimately show ?thesis using load best by blast
qed

text \<open>
  C6, amended: for a question that passes the pre-filter (not blank, trimmed and
  lower-cased longer than 3 characters, not a greeting) and a loaded knowledge base that
  holds a stored question equal to the question text, with an answer that is not empty
  and with no pair before it that scores 0.95 or more, the score is 1 and \<open>ask_assistant\<close>
  returns the stored answer of that pair as it is; nothing is requested from the API and
  the API cache is untouched.
\<close>

theorem exact_duplicate_passthrough:
  assumes "strip uq \<noteq> []" and "should_process U uq"
    and "load_qa_pairs U fs st qf af = (Inr kb, st1)"
    and "i < length kb" and "kb ! i = (uq, a)" and "a \<noteq> []"
    and "\<forall>j<i. current_score U uq (fst (kb ! j)) < 95 / 100"
  shows "find_best_match_extended U uq kb = (uq, a, 1) \<and>
         ask_assistant U fs api st uq qf af = (Inr a, st1) \<and>
         requests st1 = requests st \<and> api_cache st1 = api_cache st"
proof -
  have one: "current_score U uq (fst (kb ! i)) = 1"
    using assms(5) by (simp add: current_score_def ratio_same)
  have "scan_pairs U uq kb ([], [], 0) =
      (fst (kb ! i), snd (kb ! i), current_score U uq (fst (kb ! i)))"
    by (rule scan_pairs_early_exit) (use assms(4,7) one in auto)
  moreover have "kb \<noteq> []" using assms(4) by auto
  ultimately have best: "find_best_match_extended U uq kb = (uq, a, 1)"
    using one assms(5) by (simp add: find_best_match_extended_def)
  have "generate_smart_response U api st1 uq uq a 1 = (a, st1)"
    by (simp add: generate_smart_response_def SIMILARITY_GOOD_def)
  then have "ask_assistant U fs api st uq qf af = (Inr a, st1)"
    using ask_assistant_processed [OF assms(1,2,3) best assms(6), of api] by simp
  moreover have "requests st1 = requests st \<and> api_cache st1 = api_cache st"
    using load_qa_pairs_keeps_api [of U fs st qf af] assms(3) by simp
  ultimately show ?thesis using best by blast
qed

theorem exact_duplicate_passthrough_witness:
  "find_best_match_extended latin_cyrillic (ascii ''opening hours'')
     [(ascii ''delivery'', ascii ''By post''), (ascii ''opening hours'', ascii ''Ten to six'')]
     = (ascii ''opening hours'', ascii ''Ten to six'', 1) \<and>
   fst (ask_assistant latin_cyrillic
          (knowledge (Text (ascii ''delivery'' @ [0xA] @ ascii ''opening hours'' @ [0xA]))
             (Text (ascii ''By post'' @ [0xA] @ ascii ''Ten to six'' @ [0xA])))
          (\<lambda>m. Inl APIConnectionError) fresh (ascii ''opening hours'')
          (ascii ''knowledge.txt'') (ascii ''knowledge1.txt''))
     = Inr (ascii ''Ten to six'') \<and>
   requests (snd (ask_assistant latin_cyrillic
          (knowledge (Text (ascii ''delivery'' @ [0xA] @ ascii ''opening hours'' @ [0xA]))
             (Text (ascii ''By post'' @ [0xA] @ ascii ''Ten to six'' @ [0xA])))
          (\<lambda>m. Inl APIConnectionError) fresh (ascii ''opening hours'')
          (ascii ''knowledge.txt'') (ascii ''knowledge1.txt''))) = []"
proof -
  let ?fs = "knowledge (Text (ascii ''delivery'' @ [0xA] @ ascii ''opening hours'' @ [0xA]))
             (Text (ascii ''By post'' @ [0xA] @ ascii ''Ten to six'' @ [0xA]))"
  let ?q = "ascii ''knowledge.txt''" and ?a = "ascii ''knowledge1.txt''"
  let ?kb = "[(ascii ''delivery'', ascii ''By post''),
      (ascii ''opening hours'', ascii ''Ten to six'')]"
  let ?st1 = "snd (load_qa_pairs latin_cyrillic ?fs fresh ?q ?a)"
  have "fst (load_qa_pairs latin_cyrillic ?fs fresh ?q ?a) = Inr ?kb"
    by (simp add: eval_text eval_load)
  then have load: "load_qa_pairs latin_cyrillic ?fs fresh ?q ?a = (Inr ?kb, ?st1)"
    by (metis prod.collapse)
  have "ratio [111, 112, 101, 110, 105, 110, 103, 32, 104, 111, 117, 114, 115]
      [100, 101, 108, 105, 118, 101, 114, 121] = 2 / 7"
    by code_simp
  then have sc: "current_score latin_cyrillic (ascii ''opening hours'') (ascii ''delivery'') = 2 / 7"
    by (simp add: current_score_def eval_text)
  have before: "\<forall>j<1. current_score latin_cyrillic (ascii ''opening hours'') (fst (?kb ! j))
      < 95 / 100"
    using sc by simp
  have ne: "ascii ''Ten to six'' \<noteq> []"
    by (simp add: ascii_def)
  have "find_best_match_extended latin_cyrillic (ascii ''opening hours'') ?kb =
          (ascii ''opening hours'', ascii ''Ten to six'', 1) \<and>
        ask_assistant latin_cyrillic ?fs (\<lambda>m. Inl APIConnectionError) fresh
          (ascii ''opening hours'') ?q ?a = (Inr (ascii ''Ten to six''), ?st1) \<and>
        requests ?st1 = requests fresh \<and> api_cache ?st1 = api_cache fresh"
    by (rule exact_duplicate_passthrough [OF _ _ load _ _ ne before])
      (use opening_hours_processed in simp_all)
  then show ?thesis by (simp add: fresh_def)
qed

text \<open>
  C7: on a load that reads two readable files, pair \<open>n\<close> of the result holds the \<open>n\<close>-th
  retained question line and what \<open>clean_response\<close> makes of the \<open>n\<close>-th retained answer
  line; the result is as long as the shorter of the two lists, and it is a result, not an
  exception.
\<close>

theorem positional_pairing:
  assumes "map_of (qa_cache st) (qp, ap) = None" and "fs qp = Text qt" and "fs ap = Text atxt"
  shows "\<exists>pairs.
           fst (load_qa_pairs U fs st qp ap) = Inr pairs \<and>
           length pairs =
             min (length (retained (file_lines (universal_newlines qt))))
                 (length (retained (file_lines (universal_newlines atxt)))) \<and>
           (\<forall>n<length pairs.
              fst (pairs ! n) = retained (file_lines (universal_newlines qt)) ! n \<and>
              clean_response U (retained (file_lines (universal_newlines atxt)) ! n) =
                Inr (snd (pairs ! n)))"
proof -
  let ?qs = "retained (file_lines (universal_newlines qt))"
  let ?as = "retained (file_lines (universal_newlines atxt))"
  obtain answers where a: "fst (load_qa_pairs U fs st qp ap) = Inr (zip ?qs answers)"
    "map Inr answers = map (clean_response U) ?as"
    using load_qa_pairs_Text [OF assms] by blast
  have len: "length answers = length ?as"
    using a(2) by (metis length_map)
  have "clean_response U (?as ! n) = Inr (snd (zip ?qs answers ! n))"
    if "n < length (zip ?qs answers)" for n
  proof -
    have "map Inr answers ! n = map (clean_response U) ?as ! n"
      using a(2) by simp
    then show ?thesis using that len by simp
  qed
  then show ?thesis using a(1) len by auto
qed

theorem positional_pairing_witness:
  "map_of (qa_cache fresh) (ascii ''knowledge.txt'', ascii ''knowledge1.txt'') = None \<and>
   (\<exists>pairs.
      fst (load_qa_pairs latin_cyrillic
             (knowledge
                (Text (ascii ''  First?  '' @ [0xA, 0xA] @ ascii ''Second?'' @ [0xD, 0xA] @
                       ascii ''Third?'' @ [0xA]))
                (Text (ascii ''1. One'' @ [0xA] @ ascii ''   '' @ [0xA] @ ascii ''Two'')))
             fresh (ascii ''knowledge.txt'') (ascii ''knowledge1.txt'')) = Inr pairs \<and>
      length pairs = 2 \<and>
      fst (pairs ! 0) = ascii ''First?'' \<and>
      clean_response latin_cyrillic (ascii ''1. One'') = Inr (snd (pairs ! 0)) \<and>
      fst (pairs ! 1) = ascii ''Second?'' \<and>
      clean_response latin_cyrillic (ascii ''Two'') = Inr (snd (pairs ! 1)))"
proof -
  let ?qt = "ascii ''  First?  '' @ [0xA, 0xA] @ ascii ''Second?'' @ [0xD, 0xA] @
             ascii ''Third?'' @ [0xA]"
  let ?at = "ascii ''1. One'' @ [0xA] @ ascii ''   '' @ [0xA] @ ascii ''Two''"
  let ?fs = "knowledge (Text ?qt) (Text ?at)"
  let ?q = "ascii ''knowledge.txt''" and ?a = "ascii ''knowledge1.txt''"
  have miss: "map_of (qa_cache fresh) (?q, ?a) = None"
    by (simp add: fresh_def)
  have q: "?fs ?q = Text ?qt"
    by (simp add: knowledge_def)
  have a: "?fs ?a = Text ?at"
    by (simp add: knowledge_def ascii_def)
  have qs: "retained (file_lines (universal_newlines ?qt)) =
      [ascii ''First?'', ascii ''Second?'', ascii ''Third?'']"
    by (simp add: eval_text retained_def)
  have as: "retained (file_lines (universal_newlines ?at)) = [ascii ''1. One'', ascii ''Two'']"
    by (simp add: eval_text retained_def)
  obtain pairs where p: "fst (load_qa_pairs latin_cyrillic ?fs fresh ?q ?a) = Inr pairs"
    "length pairs = 2"
    "\<forall>n<length pairs.
       fst (pairs ! n) = [ascii ''First?'', ascii ''Second?'', ascii ''Third?''] ! n \<and>
       clean_response latin_cyrillic ([ascii ''1. One'', ascii ''Two''] ! n) = Inr (snd (pairs ! n))"
    using positional_pairing [OF miss q a, of latin_cyrillic] unfolding qs as by auto
  from p(2) p(3) [rule_format, of 0] have "fst (pairs ! 0) = ascii ''First?'' \<and>
      clean_response latin_cyrillic (ascii ''1. One'') = Inr (snd (pairs ! 0))"
    by simp
  moreover from p(2) p(3) [rule_format, of 1] have "fst (pairs ! 1) = ascii ''Second?'' \<and>
      clean_response latin_cyrillic (ascii ''Two'') = Inr (snd (pairs ! 1))"
    by simp
  ultimately show ?thesis using miss p(1,2) by blast
qed

text \<open>
  C8, as the spec states it, fails: with the answers file missing and a questions file that
  exists but cannot be opened, \<open>open\<close> raises an \<open>OSError\<close> other than
  \<open>FileNotFoundError\<close> first, which the loader does not catch and \<open>ask_assistant\<close> passes on.
\<close>

theorem unopenable_questions_file_raises:
  "fst (load_qa_pairs latin_cyrillic (knowledge NoAccess Missing) fresh
          (ascii ''knowledge.txt'') (ascii ''knowledge1.txt'')) = Inl PermissionError \<and>
   fst (ask_assistant latin_cyrillic (knowledge NoAccess Missing) (\<lambda>m. Inl APIConnectionError)
          fresh (ascii ''price list'') (ascii ''knowledge.txt'') (ascii ''knowledge1.txt''))
     = Inl PermissionError"
  by (simp add: eval_text eval_load ask_assistant_def should_process_def GREETINGS_def)

text \<open>
  C8, amended: on a load that reads the files, if the questions file is missing, or the
  questions file can be opened and the answers file is missing, the loader returns the
  empty sequence, and \<open>ask_assistant\<close> answers every question that is not blank with the
  default refusal.
\<close>

theorem missing_file_refusal:
  assumes "map_of (qa_cache st) (qp, ap) = None"
    and "fs qp = Missing \<or> (fs qp \<noteq> NoAccess \<and> fs ap = Missing)"
    and "strip uq \<noteq> []"
  shows "fst (load_qa_pairs U fs st qp ap) = Inr [] \<and>
         fst (ask_assistant U fs api st uq qp ap) = Inr DEFAULT_RESPONSE"
proof -
  have "read_qa_pairs U fs qp ap = Inl FileNotFoundError"
    using assms(2)
    by (cases "fs qp") (auto simp: read_qa_pairs_def open_r_def and_then_def)
  then have load: "fst (load_qa_pairs U fs st qp ap) = Inr []"
    by (simp add: load_qa_pairs_miss [OF assms(1)] load_qa_pairs_wrapped_def)
  obtain st1 where "load_qa_pairs U fs st qp ap = (Inr [], st1)"
    using load by (cases "load_qa_pairs U fs st qp ap") simp
  then have "fst (ask_assistant U fs api st uq qp ap) = Inr DEFAULT_RESPONSE"
    using assms(3) by (simp add: ask_assistant_def find_best_match_extended_def)
  with load show ?thesis by simp
qed

theorem missing_file_refusal_witness:
  "map_of (qa_cache fresh) (ascii ''knowledge.txt'', ascii ''knowledge1.txt'') = None \<and>
   knowledge (Text (ascii ''pricing'' @ [0xA])) Missing (ascii ''knowledge.txt'') \<noteq> NoAccess \<and>
   knowledge (Text (ascii ''pricing'' @ [0xA])) Missing (ascii ''knowledge1.txt'') = Missing \<and>
   strip (ascii ''price list'') \<noteq> [] \<and>
   fst (load_qa_pairs latin_cyrillic (knowledge (Text (ascii ''pricing'' @ [0xA])) Missing) fresh
          (ascii ''knowledge.txt'') (ascii ''knowledge1.txt'')) = Inr [] \<and>
   fst (ask_assistant latin_cyrillic (knowledge (Text (ascii ''pricing'' @ [0xA])) Missing)
          (\<lambda>m. Inl APIConnectionError) fresh (ascii ''price list'')
          (ascii ''knowledge.txt'') (ascii ''knowledge1.txt'')) = Inr DEFAULT_RESPONSE"
proof -
  let ?fs = "knowledge (Text (ascii ''pricing'' @ [0xA])) Missing"
  let ?q = "ascii ''knowledge.txt''" and ?a = "ascii ''knowledge1.txt''"
  have miss: "map_of (qa_cache fresh) (?q, ?a) = None"
    by (simp add: fresh_def)
  have q: "?fs ?q \<noteq> NoAccess"
    by (simp add: knowledge_def)
  have a: "?fs ?a = Missing"
    by (simp add: knowledge_def ascii_def)
  have u: "strip (ascii ''price list'') \<noteq> []"
    by (simp add: eval_text)
  from q a have "?fs ?q = Missing \<or> (?fs ?q \<noteq> NoAccess \<and> ?fs ?a = Missing)"
    by blast
  from missing_file_refusal [OF miss this u, of latin_cyrillic "\<lambda>m. Inl APIConnectionError"]
  show ?thesis using miss q a u by blast
qed

text \<open>
  C9: once a call of the loader for a pair of paths has returned a sequence, the next call
  for the same pair returns that sequence and opens no file, whatever the files hold by
  then.
\<close>

theorem loader_cache_hit:
  assumes "load_qa_pairs U fs st qp ap = (Inr pairs, st1)"
  shows "fst (load_qa_pairs U fs' st1 qp ap) = Inr pairs \<and>
         opened (snd (load_qa_pairs U fs' st1 qp ap)) = opened st1"
proof -
  have cached: "map_of (qa_cache st1) (qp, ap) = Some pairs"
  proof (cases "map_of (qa_cache st) (qp, ap)")
    case None
    with assms show ?thesis
      by (auto simp: load_qa_pairs_def Let_def lru_store_def CACHE_SIZE_def split: sum.splits)
  next
    case (Some p)
    with assms show ?thesis
      by (auto simp: load_qa_pairs_def lru_hit_def)
  qed
  then show ?thesis by (simp add: load_qa_pairs_def)
qed

theorem loader_cache_hit_witness:
  "fst (load_qa_pairs latin_cyrillic
          (knowledge (Text (ascii ''pricing'' @ [0xA])) (Text (ascii ''See the catalogue'' @ [0xA])))
          fresh (ascii ''knowledge.txt'') (ascii ''knowledge1.txt''))
     = Inr [(ascii ''pricing'', ascii ''See the catalogue'')] \<and>
   fst (load_qa_pairs latin_cyrillic
          (knowledge (Text (ascii ''delivery'' @ [0xA])) Missing)
          (snd (load_qa_pairs latin_cyrillic
                  (knowledge (Text (ascii ''pricing'' @ [0xA]))
                     (Text (ascii ''See the catalogue'' @ [0xA])))
                  fresh (ascii ''knowledge.txt'') (ascii ''knowledge1.txt'')))
          (ascii ''knowledge.txt'') (ascii ''knowledge1.txt''))
     = Inr [(ascii ''pricing'', ascii ''See the catalogue'')] \<and>
   fst (load_qa_pairs latin_cyrillic (knowledge (Text (ascii ''delivery'' @ [0xA])) Missing)
          fresh (ascii ''knowledge.txt'') (ascii ''knowledge1.txt'')) = Inr []"
proof -
  let ?fs = "knowledge (Text (ascii ''pricing'' @ [0xA])) (Text (ascii ''See the catalogue'' @ [0xA]))"
  let ?fs' = "knowledge (Text (ascii ''delivery'' @ [0xA])) Missing"
  let ?q = "ascii ''knowledge.txt''" and ?a = "ascii ''knowledge1.txt''"
  have first: "fst (load_qa_pairs latin_cyrillic ?fs fresh ?q ?a) =
      Inr [(ascii ''pricing'', ascii ''See the catalogue'')]"
    by (simp add: eval_text eval_load)
  then have "load_qa_pairs latin_cyrillic ?fs fresh ?q ?a =
      (Inr [(ascii ''pricing'', ascii ''See the catalogue'')],
       snd (load_qa_pairs latin_cyrillic ?fs fresh ?q ?a))"
    by (metis prod.collapse)
  from loader_cache_hit [OF this, of ?fs']
  have second: "fst (load_qa_pairs latin_cyrillic ?fs'
      (snd (load_qa_pairs latin_cyrillic ?fs fresh ?q ?a)) ?q ?a) =
      Inr [(ascii ''pricing'', ascii ''See the catalogue'')]"
    by blast
  have "fst (load_qa_pairs latin_cyrillic ?fs' fresh ?q ?a) = Inr []"
    by (simp add: eval_text eval_load)
  with first second show ?thesis by blast
qed

text \<open>
  C10: when the score is in the partial band, the exchange is not memoised and the API
  returns a completion, the answer is the hedging phrase followed by what \<open>clean_response\<close>
  makes of the completion: the completion without its text up to and including the first
  \<open>". "\<close> if it begins with a digit and holds \<open>". "\<close> within its first five characters, and
  the completion itself otherwise.
\<close>

theorem api_completion_is_cleaned:
  assumes "4 / 10 \<le> s" and "s < 6 / 10"
    and "map_of (api_cache st) (exchange uq mq ma) = None"
    and "api (exchange uq mq ma) = Inr completion"
  shows "\<exists>cleaned.
           clean_response U completion = Inr cleaned \<and>
           fst (generate_smart_response U api st uq mq ma s) = HEDGE @ cleaned \<and>
           cleaned =
             (if completion \<noteq> [] \<and> isdigit U (completion ! 0) \<and>
                 contains (ascii ''. '') (take 5 completion)
              then (case str_find completion (ascii ''. '') of
                      None \<Rightarrow> completion
                    | Some i \<Rightarrow> drop (i + 2) completion)
              else completion)"
proof -
  let ?cleaned = "case str_find completion (ascii ''. '') of
            None \<Rightarrow> completion
          | Some i \<Rightarrow> if isdigit U (completion ! 0) \<and> i \<le> 3 then drop (i + 2) completion
                      else completion"
  have c: "clean_response U completion = Inr ?cleaned"
    by (rule clean_response_eq)
  then have "get_api_response_wrapped U api (exchange uq mq ma) = ?cleaned"
    using assms(4) by (simp add: get_api_response_wrapped_def and_then_def)
  then have g: "fst (generate_smart_response U api st uq mq ma s) = HEDGE @ ?cleaned"
    using assms(1,2) get_api_response_miss [OF assms(3), of U api]
    by (simp add: generate_smart_response_def SIMILARITY_GOOD_def SIMILARITY_PARTIAL_def)
  have eq: "?cleaned =
      (if completion \<noteq> [] \<and> isdigit U (completion ! 0) \<and>
          contains (ascii ''. '') (take 5 completion)
       then (case str_find completion (ascii ''. '') of
               None \<Rightarrow> completion
             | Some i \<Rightarrow> drop (i + 2) completion)
       else completion)"
  proof (cases "str_find completion (ascii ''. '')")
    case None
    then show ?thesis by (simp add: contains_prefix)
  next
    case (Some i)
    then have "completion \<noteq> []" by (auto simp: ascii_def)
    with Some show ?thesis by (simp add: contains_prefix)
  qed
  show ?thesis
    by (rule exI [of _ ?cleaned], intro conjI) (rule c, rule g, rule eq)
qed

theorem api_completion_is_cleaned_witness:
  "fst (generate_smart_response latin_cyrillic (\<lambda>m. Inr (ascii ''1. Ask the shop''))
     fresh (ascii ''price list'') (ascii ''pricing'') (ascii ''See the catalogue'') (10 / 17))
     = HEDGE @ ascii ''Ask the shop''"
proof -
  let ?api = "\<lambda>m::message list. (Inr (ascii ''1. Ask the shop'') :: py_exception + ustr)"
  let ?x = "exchange (ascii ''price list'') (ascii ''pricing'') (ascii ''See the catalogue'')"
  have miss: "map_of (api_cache fresh) ?x = None"
    by (simp add: fresh_def)
  have "(4::rat) / 10 \<le> 10 / 17" "(10::rat) / 17 < 6 / 10"
    by simp_all
  from api_completion_is_cleaned [OF this miss, of ?api "ascii ''1. Ask the shop''" latin_cyrillic]
  show ?thesis
    by (simp add: eval_text)
qed

end
